theory Spec2Isabelle
  imports Complex_Main
begin

section \<open>Frame Scheduler: the per-worker partition of frame indices\<close>

text \<open>
  Errors of the JavaScript runtime that the modelled code can raise.
  \<open>TypeError\<close> is what \<^verbatim>\<open>undefined.push(i)\<close> raises.
\<close>

datatype js_error = TypeError

text \<open>
  \<^verbatim>\<open>
  const frameAssignments = Array.from({ length: numWorkers }, () => [])
  for (let i = 0; i < totalFrames; i++) {
      frameAssignments[i % numWorkers].push(i)
  }
  \<close>
  The loop visits \<open>i = 0, 1, ..., totalFrames - 1\<close>; \<open>assign_loop\<close> is its body
  iterated over the indices still to visit. With \<open>numWorkers = 0\<close> the array is empty,
  \<^verbatim>\<open>i % 0\<close> is NaN, the element read is \<^verbatim>\<open>undefined\<close> and \<^verbatim>\<open>.push\<close>
  raises; HOL's \<open>i mod 0 = i\<close> would hide that, so the case is written out.
  For \<open>0 < numWorkers\<close> the index \<open>i mod numWorkers\<close> is always in range.
\<close>

primrec assign_loop :: "nat list \<Rightarrow> nat \<Rightarrow> nat list list \<Rightarrow> js_error + nat list list" where
  "assign_loop [] numWorkers fa = Inr fa"
| "assign_loop (i # rest) numWorkers fa =
     (if numWorkers = 0 then Inl TypeError
      else assign_loop rest numWorkers
             (fa[i mod numWorkers := fa ! (i mod numWorkers) @ [i]]))"

definition frameAssignments :: "nat \<Rightarrow> nat \<Rightarrow> js_error + nat list list" where
  "frameAssignments numWorkers totalFrames =
     assign_loop [0..<totalFrames] numWorkers (replicate numWorkers [])"

text \<open>What the loop builds: every worker's row grows by its residue class, in visiting order.\<close>

definition assigned :: "nat \<Rightarrow> nat \<Rightarrow> nat \<Rightarrow> nat list" where
  "assigned numWorkers totalFrames w = filter (\<lambda>i. i mod numWorkers = w) [0..<totalFrames]"

lemma assign_loop_rows:
  assumes "0 < W" and "length fa = W"
  shows "assign_loop xs W fa =
           Inr (map (\<lambda>w. fa ! w @ filter (\<lambda>i. i mod W = w) xs) [0..<W])"
  using assms
proof (induction xs arbitrary: fa)
  case Nil
  have "map (\<lambda>w. fa ! w) [0..<length fa] = fa" by (rule map_nth)
  with Nil show ?case by simp
next
  case (Cons i xs)
  let ?fa = "fa[i mod W := fa ! (i mod W) @ [i]]"
  have len: "length ?fa = W" using Cons.prems by simp
  have row: "\<And>w. w < W \<Longrightarrow>
      ?fa ! w @ filter (\<lambda>j. j mod W = w) xs = fa ! w @ filter (\<lambda>j. j mod W = w) (i # xs)"
    using Cons.prems by (auto simp: nth_list_update)
  have "assign_loop (i # xs) W fa = assign_loop xs W ?fa"
    using Cons.prems by simp
  also have "\<dots> = Inr (map (\<lambda>w. ?fa ! w @ filter (\<lambda>j. j mod W = w) xs) [0..<W])"
    using Cons.IH [OF Cons.prems(1) len] .
  also have "map (\<lambda>w. ?fa ! w @ filter (\<lambda>j. j mod W = w) xs) [0..<W] =
             map (\<lambda>w. fa ! w @ filter (\<lambda>j. j mod W = w) (i # xs)) [0..<W]"
    by (rule map_cong) (use row in auto)
  finally show ?case .
qed

lemma frameAssignments_eq:
  "0 < W \<Longrightarrow> frameAssignments W N = Inr (map (assigned W N) [0..<W])"
  by (simp add: frameAssignments_def assign_loop_rows assigned_def)

lemma sorted_wrt_less_filter_upt: "sorted_wrt (<) (filter P [0..<(n::nat)])"
  by (rule sorted_wrt_filter) (simp add: sorted_wrt_upt)

text \<open>
  Claim C10, as stated, fails: it speaks of every worker count, and the worker count is
  \<^verbatim>\<open>parseInt(providedWorkers, 10)\<close> whenever the option is given, so the text
  \<^verbatim>\<open>'0'\<close> (a non-empty string, hence truthy) makes it 0. Then the table has no
  row, the first \<^verbatim>\<open>push\<close> raises, and no partition is built.
\<close>

theorem frameAssignments_no_worker_counterexample:
  "frameAssignments 0 10 = Inl TypeError"
  by (simp add: frameAssignments_def upt_conv_Cons)

text \<open>
  Claim C10, amended. For every total frame count \<open>N\<close> and every worker count
  \<open>W \<ge> 1\<close>, the table the scheduler builds by pushing frame index \<open>i\<close> onto row
  \<open>i mod W\<close> is a true partition of \<open>[0, N)\<close>: it has one row per worker, every
  index below \<open>N\<close> lies in exactly one row (the row \<open>i mod W\<close>), the rows hold
  nothing else, and every row is strictly ascending.
\<close>

theorem frameAssignments_partition:
  assumes "0 < W"
  shows "\<exists>fa. frameAssignments W N = Inr fa \<and> length fa = W
           \<and> (\<forall>i<N. \<exists>!w. w < W \<and> i \<in> set (fa ! w))
           \<and> (\<forall>i<N. i \<in> set (fa ! (i mod W)))
           \<and> (\<forall>w<W. set (fa ! w) \<subseteq> {0..<N})
           \<and> (\<forall>w<W. sorted_wrt (<) (fa ! w))"
proof -
  let ?fa = "map (assigned W N) [0..<W]"
  have eq: "frameAssignments W N = Inr ?fa"
    using assms by (rule frameAssignments_eq)
  have mem: "\<And>w i. w < W \<Longrightarrow> i \<in> set (?fa ! w) \<longleftrightarrow> i < N \<and> i mod W = w"
    by (auto simp: assigned_def)
  have uniq: "\<forall>i<N. \<exists>!w. w < W \<and> i \<in> set (?fa ! w)"
  proof (intro allI impI)
    fix i assume "i < N"
    show "\<exists>!w. w < W \<and> i \<in> set (?fa ! w)"
    proof (rule ex1I [of _ "i mod W"])
      show "i mod W < W \<and> i \<in> set (?fa ! (i mod W))"
        using assms \<open>i < N\<close> mem [of "i mod W" i] by simp
    next
      fix w assume "w < W \<and> i \<in> set (?fa ! w)"
      then show "w = i mod W" by (auto simp: assigned_def)
    qed
  qed
  have cover: "\<forall>i<N. i \<in> set (?fa ! (i mod W))"
    using assms mem by simp
  have range: "\<forall>w<W. set (?fa ! w) \<subseteq> {0..<N}"
    using mem by auto
  have asc: "\<forall>w<W. sorted_wrt (<) (?fa ! w)"
    by (simp add: assigned_def sorted_wrt_less_filter_upt)
  show ?thesis
    using eq uniq cover range asc by (intro exI [of _ ?fa]) simp
qed

theorem frameAssignments_partition_witness:
  "(0::nat) < 4 \<and> frameAssignments 4 10 = Inr [[0, 4, 8], [1, 5, 9], [2, 6], [3, 7]]
     \<and> (\<exists>fa. frameAssignments 4 10 = Inr fa \<and> length fa = 4
           \<and> (\<forall>i<10. \<exists>!w. w < 4 \<and> i \<in> set (fa ! w))
           \<and> (\<forall>w<4. sorted_wrt (<) (fa ! w)))"
proof -
  have h: "(0::nat) < 4" by simp
  have ev: "frameAssignments 4 10 = Inr [[0, 4, 8], [1, 5, 9], [2, 6], [3, 7]]"
    by code_simp
  show ?thesis using h ev frameAssignments_partition [OF h, of 10] by blast
qed

section \<open>Capability Detector\<close>

subsection \<open>Strings\<close>

text \<open>
  \<^verbatim>\<open>String.prototype.toLowerCase\<close> and \<^verbatim>\<open>String.prototype.includes\<close> on
  renderer strings. Characters are bytes here; the lowering is the ASCII one (bit 5 set on
  \<open>A\<close>..\<open>Z\<close>), which is what JavaScript does on the ASCII range the signatures live in.
\<close>

definition lower_char :: "char \<Rightarrow> char" where
  "lower_char c =
     (if 65 \<le> (of_char c :: nat) \<and> (of_char c :: nat) \<le> 90
      then (case c of Char b0 b1 b2 b3 b4 b5 b6 b7 \<Rightarrow> Char b0 b1 b2 b3 b4 True b6 b7)
      else c)"

definition toLowerCase :: "string \<Rightarrow> string" where
  "toLowerCase s = map lower_char s"

fun startsWith :: "string \<Rightarrow> string \<Rightarrow> bool" where
  "startsWith s [] = True"
| "startsWith [] (p # ps) = False"
| "startsWith (c # cs) (p # ps) = (c = p \<and> startsWith cs ps)"

fun includes_sub :: "string \<Rightarrow> string \<Rightarrow> bool" where
  "includes_sub [] pat = (pat = [])"
| "includes_sub (c # cs) pat = (startsWith (c # cs) pat \<or> includes_sub cs pat)"

subsection \<open>Backend profiles\<close>

record gpu_backend =
  b_name :: string
  b_label :: string
  b_channel :: "string option"
  b_headless :: bool
  b_args :: "string list"

definition linux_backends :: "gpu_backend list" where
  "linux_backends =
   [\<lparr>b_name = ''vulkan'', b_label = ''Vulkan (NVIDIA/AMD)'', b_channel = Some ''chromium'',
      b_headless = True,
      b_args = [''--no-sandbox'', ''--disable-background-timer-throttling'',
                ''--disable-backgrounding-occluded-windows'', ''--disable-renderer-backgrounding'',
                ''--disable-ipc-flooding-protection'', ''--use-angle=vulkan'',
                ''--enable-features=Vulkan'', ''--disable-vulkan-surface'',
                ''--enable-unsafe-webgpu'', ''--ignore-gpu-blocklist'']\<rparr>,
    \<lparr>b_name = ''egl'', b_label = ''EGL (Intel/Mesa)'', b_channel = Some ''chromium'',
      b_headless = True,
      b_args = [''--no-sandbox'', ''--disable-background-timer-throttling'',
                ''--disable-backgrounding-occluded-windows'', ''--disable-renderer-backgrounding'',
                ''--use-gl=egl'', ''--ignore-gpu-blocklist'']\<rparr>,
    \<lparr>b_name = ''desktop'', b_label = ''Desktop OpenGL'', b_channel = Some ''chromium'',
      b_headless = True,
      b_args = [''--no-sandbox'', ''--disable-background-timer-throttling'',
                ''--disable-backgrounding-occluded-windows'', ''--disable-renderer-backgrounding'',
                ''--use-gl=desktop'', ''--ignore-gpu-blocklist'']\<rparr>,
    \<lparr>b_name = ''angle-gl'', b_label = ''ANGLE OpenGL ES'', b_channel = Some ''chromium'',
      b_headless = True,
      b_args = [''--no-sandbox'', ''--disable-background-timer-throttling'',
                ''--disable-backgrounding-occluded-windows'', ''--disable-renderer-backgrounding'',
                ''--use-angle=gl'', ''--ignore-gpu-blocklist'']\<rparr>]"

definition darwin_backends :: "gpu_backend list" where
  "darwin_backends =
   [\<lparr>b_name = ''metal'', b_label = ''Metal (Recommended)'', b_channel = Some ''chromium'',
      b_headless = True, b_args = [''--use-angle=metal'']\<rparr>,
    \<lparr>b_name = ''desktop'', b_label = ''Desktop OpenGL'', b_channel = Some ''chromium'',
      b_headless = True, b_args = [''--use-gl=desktop'']\<rparr>,
    \<lparr>b_name = ''auto'', b_label = ''Auto'', b_channel = Some ''chromium'',
      b_headless = True, b_args = []\<rparr>]"

definition win32_backends :: "gpu_backend list" where
  "win32_backends =
   [\<lparr>b_name = ''d3d11'', b_label = ''Direct3D 11 (Recommended)'', b_channel = Some ''chromium'',
      b_headless = True, b_args = [''--no-sandbox'', ''--use-angle=d3d11'']\<rparr>,
    \<lparr>b_name = ''d3d9'', b_label = ''Direct3D 9'', b_channel = Some ''chromium'',
      b_headless = True, b_args = [''--no-sandbox'', ''--use-angle=d3d9'']\<rparr>,
    \<lparr>b_name = ''desktop'', b_label = ''Desktop OpenGL'', b_channel = Some ''chromium'',
      b_headless = True, b_args = [''--no-sandbox'', ''--use-gl=desktop'']\<rparr>,
    \<lparr>b_name = ''auto'', b_label = ''Auto'', b_channel = Some ''chromium'',
      b_headless = True, b_args = [''--no-sandbox'']\<rparr>]"

text \<open>\<^verbatim>\<open>GPU_BACKENDS[plat] || GPU_BACKENDS.linux\<close>, for the values \<^verbatim>\<open>os.platform()\<close> returns.\<close>

definition GPU_BACKENDS :: "string \<Rightarrow> gpu_backend list option" where
  "GPU_BACKENDS plat =
     (if plat = ''linux'' then Some linux_backends
      else if plat = ''darwin'' then Some darwin_backends
      else if plat = ''win32'' then Some win32_backends
      else None)"

definition backends_of :: "string \<Rightarrow> gpu_backend list" where
  "backends_of plat = (case GPU_BACKENDS plat of Some bs \<Rightarrow> bs | None \<Rightarrow> linux_backends)"

definition SOFTWARE_FALLBACK :: gpu_backend where
  "SOFTWARE_FALLBACK =
     \<lparr>b_name = ''software'', b_label = ''Software (SwiftShader)'', b_channel = None,
      b_headless = True, b_args = [''--no-sandbox'']\<rparr>"

record gpu_config =
  backend :: string
  label :: string
  channel :: "string option"
  headless :: bool
  args :: "string list"
  isHardwareAccelerated :: bool
  renderer :: "string option"
  vendor :: "string option"

subsection \<open>The probe\<close>

text \<open>
  What the probe page finds: no WebGL context, a context without the
  \<^verbatim>\<open>WEBGL_debug_renderer_info\<close> extension, or a context with it, reporting the
  unmasked renderer and vendor (each may be \<^verbatim>\<open>null\<close>).
\<close>

datatype gl_caps = NoWebGL | WebGL | WebGLDebug "string option" "string option"

text \<open>The object the probe returns; an absent field is \<open>None\<close> (\<^verbatim>\<open>undefined\<close>, falsy).\<close>

record gpuInfo =
  supported :: bool
  info_renderer :: "string option"
  info_vendor :: "string option"
  info_isHardwareAccelerated :: "bool option"
  info_error :: "string option"

definition truthy :: "bool option \<Rightarrow> bool" where
  "truthy v = (v = Some True)"

text \<open>
  The classifier inside \<^verbatim>\<open>testGPUBackend\<close>:
  \<^verbatim>\<open>
  const rendererLower = (renderer || '').toLowerCase()
  const isSoftware =
      rendererLower.includes('swiftshader') || rendererLower.includes('llvmpipe') ||
      rendererLower.includes('software') || rendererLower.includes('microsoft basic render')
  \<close>
\<close>

definition isSoftware :: "string option \<Rightarrow> bool" where
  "isSoftware r =
     (let rendererLower = toLowerCase (case r of None \<Rightarrow> [] | Some s \<Rightarrow> s) in
        includes_sub rendererLower ''swiftshader'' \<or>
        includes_sub rendererLower ''llvmpipe'' \<or>
        includes_sub rendererLower ''software'' \<or>
        includes_sub rendererLower ''microsoft basic render'')"

text \<open>The function evaluated in the probe page.\<close>

definition probe_script :: "gl_caps \<Rightarrow> gpuInfo" where
  "probe_script caps =
     (case caps of
        NoWebGL \<Rightarrow> \<lparr>supported = False, info_renderer = None, info_vendor = None,
                    info_isHardwareAccelerated = None, info_error = None\<rparr>
      | WebGLDebug r v \<Rightarrow> \<lparr>supported = True, info_renderer = r, info_vendor = v,
                    info_isHardwareAccelerated = Some (\<not> isSoftware r), info_error = None\<rparr>
      | WebGL \<Rightarrow> \<lparr>supported = True, info_renderer = None, info_vendor = None,
                    info_isHardwareAccelerated = Some False, info_error = None\<rparr>)"

text \<open>
  The classifier of the diagnostics script (\<^verbatim>\<open>test-gpu.js\<close>), the sibling of the one above:
  \<^verbatim>\<open>
  const renderer = gpuInfo.webgl?.renderer?.toLowerCase() || ''
  const isSoftware = renderer.includes('swiftshader') || renderer.includes('llvmpipe') ||
      renderer.includes('software') || renderer.includes('microsoft basic render') ||
      renderer.includes('mesa') && renderer.includes('llvm')
  \<close>
\<close>

definition isSoftware_diagnostics :: "string option \<Rightarrow> bool" where
  "isSoftware_diagnostics r =
     (let renderer = (case r of None \<Rightarrow> [] | Some s \<Rightarrow> toLowerCase s) in
        includes_sub renderer ''swiftshader'' \<or>
        includes_sub renderer ''llvmpipe'' \<or>
        includes_sub renderer ''software'' \<or>
        includes_sub renderer ''microsoft basic render'' \<or>
        (includes_sub renderer ''mesa'' \<and> includes_sub renderer ''llvm''))"

text \<open>
  A rejected promise or a thrown exception carries a message.
  What the outside world does when a backend is probed: each awaited call of
  \<^verbatim>\<open>testGPUBackend\<close> either rejects (launch error, timeout, crashed page) or resolves.
\<close>

datatype failure = Rejected string

record probe_world =
  launch :: "failure + unit"
  newContext :: "failure + unit"
  newPage :: "failure + unit"
  evaluate :: "failure + gl_caps"
  close :: "failure + unit"
  elapsed :: nat

definition bind_sum :: "'e + 'a \<Rightarrow> ('a \<Rightarrow> 'e + 'b) \<Rightarrow> 'e + 'b" where
  "bind_sum m f = (case m of Inl e \<Rightarrow> Inl e | Inr x \<Rightarrow> f x)"

text \<open>The body of the \<^verbatim>\<open>try\<close> block of \<^verbatim>\<open>testGPUBackend\<close>: any rejection leaves it.\<close>

definition testGPUBackend_try :: "probe_world \<Rightarrow> failure + gpuInfo" where
  "testGPUBackend_try p =
     bind_sum (launch p) (\<lambda>_.
     bind_sum (newContext p) (\<lambda>_.
     bind_sum (newPage p) (\<lambda>_.
     bind_sum (evaluate p) (\<lambda>caps.
     bind_sum (close p) (\<lambda>_.
     Inr (probe_script caps))))))"

text \<open>\<^verbatim>\<open>catch (error) { return { supported: false, error: error.message } }\<close>\<close>

definition testGPUBackend :: "probe_world \<Rightarrow> failure + gpuInfo" where
  "testGPUBackend p =
     (case testGPUBackend_try p of
        Inl (Rejected msg) \<Rightarrow>
          Inr \<lparr>supported = False, info_renderer = None, info_vendor = None,
               info_isHardwareAccelerated = None, info_error = Some msg\<rparr>
      | Inr info \<Rightarrow> Inr info)"

subsection \<open>The cache\<close>

text \<open>
  The cache file as \<^verbatim>\<open>loadCachedConfig\<close> meets it: absent (\<^verbatim>\<open>readFile\<close>
  rejects), not usable (\<^verbatim>\<open>JSON.parse\<close> or the field access throws), or a JSON value.
  Of its \<^verbatim>\<open>timestamp\<close> the code uses only \<^verbatim>\<open>Date.now() - cache.timestamp\<close>, which
  converts the field to a number first; the first component is that number in whole
  milliseconds (a number is itself, a numeric string such as \<^verbatim>\<open>"1500"\<close> its value), or
  \<open>None\<close> when the conversion gives NaN (a missing field, a text that is no number): the
  comparison with NaN is false. The second is the \<^verbatim>\<open>config\<close> when truthy (else
  \<open>None\<close>).
\<close>

datatype cache_file = NoFile | Garbage | Cache "int option" "gpu_config option"

definition CACHE_TTL :: int where
  "CACHE_TTL = 24 * 60 * 60 * 1000"

text \<open>
  The detector's state: the module variable \<^verbatim>\<open>cachedConfig\<close>, the cache file, the clock
  \<^verbatim>\<open>Date.now()\<close> reads (milliseconds), and the backends a probe browser was launched for,
  in order.
\<close>

record detector =
  cachedConfig :: "gpu_config option"
  cacheFile :: cache_file
  now :: int
  probed :: "string list"

record world =
  platform :: string
  probe :: "gpu_backend \<Rightarrow> probe_world"
  writable :: bool

definition loadCachedConfig_try :: "detector \<Rightarrow> failure + gpu_config option" where
  "loadCachedConfig_try st =
     (case cacheFile st of
        NoFile \<Rightarrow> Inl (Rejected ''ENOENT'')
      | Garbage \<Rightarrow> Inl (Rejected ''SyntaxError'')
      | Cache ts cfg \<Rightarrow>
          (case ts of
             Some t \<Rightarrow> if now st - t < CACHE_TTL then Inr cfg else Inr None
           | None \<Rightarrow> Inr None))"

definition loadCachedConfig :: "detector \<Rightarrow> failure + gpu_config option" where
  "loadCachedConfig st =
     (case loadCachedConfig_try st of Inl _ \<Rightarrow> Inr None | Inr r \<Rightarrow> Inr r)"

definition saveCachedConfig_try :: "world \<Rightarrow> gpu_config \<Rightarrow> detector \<Rightarrow> failure + detector" where
  "saveCachedConfig_try w config st =
     (if writable w then Inr (st\<lparr>cacheFile := Cache (Some (now st)) (Some config)\<rparr>)
      else Inl (Rejected ''EACCES''))"

definition saveCachedConfig :: "world \<Rightarrow> gpu_config \<Rightarrow> detector \<Rightarrow> failure + detector" where
  "saveCachedConfig w config st =
     (case saveCachedConfig_try w config st of Inl _ \<Rightarrow> Inr st | Inr st' \<Rightarrow> Inr st')"

subsection \<open>Detection\<close>

text \<open>One call of \<^verbatim>\<open>testGPUBackend(backend)\<close>: a browser is launched and time passes.\<close>

definition run_probe :: "world \<Rightarrow> gpu_backend \<Rightarrow> detector \<Rightarrow> failure + (gpuInfo \<times> detector)" where
  "run_probe w b st =
     bind_sum (testGPUBackend (probe w b)) (\<lambda>result.
       Inr (result, st\<lparr>probed := probed st @ [b_name b],
                        now := now st + int (elapsed (probe w b))\<rparr>))"

definition config_of :: "gpu_backend \<Rightarrow> gpuInfo \<Rightarrow> gpu_config" where
  "config_of b result =
     \<lparr>backend = b_name b, label = b_label b, channel = b_channel b, headless = b_headless b,
      args = b_args b, isHardwareAccelerated = True,
      renderer = info_renderer result, vendor = info_vendor result\<rparr>"

definition software_config :: gpu_config where
  "software_config =
     \<lparr>backend = b_name SOFTWARE_FALLBACK, label = b_label SOFTWARE_FALLBACK,
      channel = b_channel SOFTWARE_FALLBACK, headless = b_headless SOFTWARE_FALLBACK,
      args = b_args SOFTWARE_FALLBACK, isHardwareAccelerated = False,
      renderer = Some ''SwiftShader'', vendor = Some ''Google''\<rparr>"

text \<open>\<^verbatim>\<open>cachedConfig = config; await saveCachedConfig(config); return config\<close>\<close>

definition remember :: "world \<Rightarrow> gpu_config \<Rightarrow> detector \<Rightarrow> failure + (gpu_config \<times> detector)" where
  "remember w config st =
     bind_sum (saveCachedConfig w config (st\<lparr>cachedConfig := Some config\<rparr>)) (\<lambda>st'.
       Inr (config, st'))"

text \<open>The loop over the candidates, and the software fallback after it.\<close>

fun try_backends :: "world \<Rightarrow> gpu_backend list \<Rightarrow> detector \<Rightarrow> failure + (gpu_config \<times> detector)" where
  "try_backends w [] st = remember w software_config st"
| "try_backends w (b # bs) st =
     bind_sum (run_probe w b st) (\<lambda>(result, st1).
       if truthy (info_isHardwareAccelerated result) then remember w (config_of b result) st1
       else try_backends w bs st1)"

record detect_options =
  forceDetect :: bool
  preferBackend :: "string option"

text \<open>\<^verbatim>\<open>detectBestGPUConfig\<close> from the line \<^verbatim>\<open>const plat = platform()\<close> on.\<close>

definition detect_fresh :: "detect_options \<Rightarrow> world \<Rightarrow> detector \<Rightarrow> failure + (gpu_config \<times> detector)" where
  "detect_fresh opts w st =
     (let backends = backends_of (platform w);
          preferred = (case preferBackend opts of
                         None \<Rightarrow> None
                       | Some n \<Rightarrow> if n = [] then None else find (\<lambda>b. b_name b = n) backends)
      in case preferred of
           None \<Rightarrow> try_backends w backends st
         | Some b \<Rightarrow>
             bind_sum (run_probe w b st) (\<lambda>(result, st1).
               if truthy (info_isHardwareAccelerated result) then remember w (config_of b result) st1
               else try_backends w backends st1))"

definition detectBestGPUConfig :: "detect_options \<Rightarrow> world \<Rightarrow> detector \<Rightarrow> failure + (gpu_config \<times> detector)" where
  "detectBestGPUConfig opts w st =
     (case (if forceDetect opts then None else cachedConfig st) of
        Some c \<Rightarrow> Inr (c, st)
      | None \<Rightarrow>
          if forceDetect opts then detect_fresh opts w st
          else bind_sum (loadCachedConfig st) (\<lambda>cached.
                 case cached of
                   Some c \<Rightarrow> Inr (c, st\<lparr>cachedConfig := Some c\<rparr>)
                 | None \<Rightarrow> detect_fresh opts w st))"

text \<open>A probe fails: a launch error or timeout, a crashed page, or no WebGL capability.\<close>

definition probe_failed :: "probe_world \<Rightarrow> bool" where
  "probe_failed p \<longleftrightarrow>
     isl (launch p) \<or> isl (newContext p) \<or> isl (newPage p) \<or> isl (evaluate p)
     \<or> evaluate p = Inr NoWebGL \<or> isl (close p)"

subsection \<open>Sample worlds\<close>

text \<open>A probe that finds a hardware renderer, and one whose browser launch times out.\<close>

definition probe_nvidia :: probe_world where
  "probe_nvidia =
     \<lparr>launch = Inr (), newContext = Inr (), newPage = Inr (),
      evaluate = Inr (WebGLDebug (Some ''NVIDIA GeForce RTX 3080/PCIe/SSE2'')
                                 (Some ''NVIDIA Corporation'')),
      close = Inr (), elapsed = 1500\<rparr>"

definition probe_timeout :: probe_world where
  "probe_timeout =
     \<lparr>launch = Inl (Rejected ''Timeout 8000ms exceeded''), newContext = Inr (),
      newPage = Inr (), evaluate = Inr NoWebGL, close = Inr (), elapsed = 8000\<rparr>"

definition world_gpu :: world where
  "world_gpu = \<lparr>platform = ''linux'', probe = (\<lambda>_. probe_nvidia), writable = True\<rparr>"

definition world_headless :: world where
  "world_headless = \<lparr>platform = ''linux'', probe = (\<lambda>_. probe_timeout), writable = True\<rparr>"

definition fresh_detector :: detector where
  "fresh_detector = \<lparr>cachedConfig = None, cacheFile = NoFile, now = 0, probed = []\<rparr>"

definition default_options :: detect_options where
  "default_options = \<lparr>forceDetect = False, preferBackend = None\<rparr>"

definition vulkan_nvidia :: gpu_config where
  "vulkan_nvidia = config_of (hd linux_backends) (probe_script
     (WebGLDebug (Some ''NVIDIA GeForce RTX 3080/PCIe/SSE2'') (Some ''NVIDIA Corporation'')))"

text \<open>The detector after one detection at time 0 in \<open>world_gpu\<close>.\<close>

definition detector_after_vulkan :: detector where
  "detector_after_vulkan =
     \<lparr>cachedConfig = Some vulkan_nvidia, cacheFile = Cache (Some 1500) (Some vulkan_nvidia),
      now = 1500, probed = [''vulkan'']\<rparr>"

text \<open>A new process (empty module variable) that finds the file written at time 1500.\<close>

definition restarted_detector :: "int \<Rightarrow> detector" where
  "restarted_detector t =
     \<lparr>cachedConfig = None, cacheFile = Cache (Some 1500) (Some vulkan_nvidia),
      now = t, probed = []\<rparr>"

definition hours :: "int \<Rightarrow> int" where
  "hours h = h * 60 * 60 * 1000"

lemma testGPUBackend_total: "\<exists>info. testGPUBackend p = Inr info"
  by (cases "testGPUBackend_try p")
     (auto simp: testGPUBackend_def split: failure.splits)

lemma testGPUBackend_failed:
  assumes "probe_failed p"
  shows "\<exists>info. testGPUBackend p = Inr info \<and> \<not> supported info
           \<and> \<not> truthy (info_isHardwareAccelerated info)"
proof -
  have "testGPUBackend_try p = Inr (probe_script NoWebGL) \<or> isl (testGPUBackend_try p)"
    using assms
    by (auto simp: probe_failed_def testGPUBackend_try_def bind_sum_def isl_def
             split: sum.splits)
  then show ?thesis
    by (auto simp: testGPUBackend_def probe_script_def truthy_def isl_def
             split: failure.splits)
qed

lemma run_probe_total:
  "\<exists>info. run_probe w b st =
     Inr (info, st\<lparr>probed := probed st @ [b_name b], now := now st + int (elapsed (probe w b))\<rparr>)
     \<and> testGPUBackend (probe w b) = Inr info"
  using testGPUBackend_total [of "probe w b"]
  by (auto simp: run_probe_def bind_sum_def)

lemma remember_eq:
  "\<exists>st'. remember w config st = Inr (config, st') \<and> cachedConfig st' = Some config
     \<and> probed st' = probed st \<and> now st' = now st
     \<and> (writable w \<longrightarrow> cacheFile st' = Cache (Some (now st)) (Some config))"
  by (simp add: remember_def saveCachedConfig_def saveCachedConfig_try_def bind_sum_def)

lemma try_backends_total:
  "\<exists>cfg st'. try_backends w bs st = Inr (cfg, st') \<and> cachedConfig st' = Some cfg
     \<and> (\<exists>more. probed st' = probed st @ more \<and> (bs \<noteq> [] \<longrightarrow> more \<noteq> [] \<and> hd more = b_name (hd bs)))"
proof (induction bs arbitrary: st)
  case Nil
  show ?case using remember_eq [of w software_config st] by auto
next
  case (Cons b bs)
  let ?st1 = "st\<lparr>probed := probed st @ [b_name b], now := now st + int (elapsed (probe w b))\<rparr>"
  obtain info where rp: "run_probe w b st = Inr (info, ?st1)"
    using run_probe_total by blast
  show ?case
  proof (cases "truthy (info_isHardwareAccelerated info)")
    case True
    then show ?thesis
      using rp remember_eq [of w "config_of b info" ?st1]
      by (auto simp: bind_sum_def)
  next
    case False
    obtain cfg st' more where
      "try_backends w bs ?st1 = Inr (cfg, st')" "cachedConfig st' = Some cfg"
      "probed st' = probed ?st1 @ more"
      using Cons.IH [of ?st1] by blast
    then show ?thesis
      using rp False by (auto simp: bind_sum_def)
  qed
qed

lemma try_backends_all_failed:
  assumes "\<forall>b\<in>set bs. probe_failed (probe w b)"
  shows "\<exists>st'. try_backends w bs st = Inr (software_config, st')
           \<and> cachedConfig st' = Some software_config
           \<and> probed st' = probed st @ map b_name bs"
  using assms
proof (induction bs arbitrary: st)
  case Nil
  show ?case using remember_eq [of w software_config st] by auto
next
  case (Cons b bs)
  let ?st1 = "st\<lparr>probed := probed st @ [b_name b], now := now st + int (elapsed (probe w b))\<rparr>"
  obtain info where rp: "run_probe w b st = Inr (info, ?st1)"
    and tg: "testGPUBackend (probe w b) = Inr info"
    using run_probe_total by blast
  have "probe_failed (probe w b)" using Cons.prems by simp
  then have nf: "\<not> truthy (info_isHardwareAccelerated info)"
    using testGPUBackend_failed [of "probe w b"] tg by auto
  obtain st' where "try_backends w bs ?st1 = Inr (software_config, st')"
      "cachedConfig st' = Some software_config" "probed st' = probed ?st1 @ map b_name bs"
    using Cons.IH [of ?st1] Cons.prems by auto
  then show ?case using rp nf by (auto simp: bind_sum_def)
qed

lemma preferred_in_backends:
  "find (\<lambda>b. b_name b = n) bs = Some b \<Longrightarrow> b \<in> set bs"
  by (auto simp: find_Some_iff)

lemma backends_of_nonempty: "backends_of plat \<noteq> []"
  by (simp add: backends_of_def GPU_BACKENDS_def linux_backends_def darwin_backends_def
        win32_backends_def)

lemma detect_fresh_total:
  "\<exists>cfg st'. detect_fresh opts w st = Inr (cfg, st') \<and> cachedConfig st' = Some cfg
     \<and> (\<exists>n more. probed st' = probed st @ n # more
           \<and> n \<in> b_name ` set (backends_of (platform w)))"
proof -
  let ?bs = "backends_of (platform w)"
  let ?pref = "case preferBackend opts of None \<Rightarrow> None
               | Some n \<Rightarrow> if n = [] then None else find (\<lambda>b. b_name b = n) ?bs"
  have hdin: "b_name (hd ?bs) \<in> b_name ` set ?bs"
    using backends_of_nonempty [of "platform w"] by simp
  show ?thesis
  proof (cases ?pref)
    case None
    obtain cfg st' more where
      "try_backends w ?bs st = Inr (cfg, st')" "cachedConfig st' = Some cfg"
      "probed st' = probed st @ more" "more \<noteq> []" "hd more = b_name (hd ?bs)"
      using try_backends_total [of w ?bs st] backends_of_nonempty [of "platform w"] by auto
    moreover from this obtain m ms where "more = m # ms" by (cases more) auto
    ultimately show ?thesis
      using None hdin by (auto simp: detect_fresh_def)
  next
    case (Some b)
    then have bin: "b \<in> set ?bs"
      by (auto split: option.splits if_splits dest: preferred_in_backends)
    let ?st1 = "st\<lparr>probed := probed st @ [b_name b], now := now st + int (elapsed (probe w b))\<rparr>"
    obtain info where rp: "run_probe w b st = Inr (info, ?st1)"
      using run_probe_total by blast
    show ?thesis
    proof (cases "truthy (info_isHardwareAccelerated info)")
      case True
      then show ?thesis
        using Some rp bin remember_eq [of w "config_of b info" ?st1]
        by (auto simp: detect_fresh_def bind_sum_def)
    next
      case False
      obtain cfg st' more where
        "try_backends w ?bs ?st1 = Inr (cfg, st')" "cachedConfig st' = Some cfg"
        "probed st' = probed ?st1 @ more"
        using try_backends_total [of w ?bs ?st1] by blast
      then show ?thesis
        using Some rp bin False by (auto simp: detect_fresh_def bind_sum_def)
    qed
  qed
qed

lemma detect_fresh_all_failed:
  assumes "\<forall>b\<in>set (backends_of (platform w)). probe_failed (probe w b)"
  shows "\<exists>st'. detect_fresh opts w st = Inr (software_config, st')"
proof -
  let ?bs = "backends_of (platform w)"
  let ?pref = "case preferBackend opts of None \<Rightarrow> None
               | Some n \<Rightarrow> if n = [] then None else find (\<lambda>b. b_name b = n) ?bs"
  show ?thesis
  proof (cases ?pref)
    case None
    then show ?thesis
      using try_backends_all_failed [OF assms, of st] by (auto simp: detect_fresh_def)
  next
    case (Some b)
    then have bin: "b \<in> set ?bs"
      by (auto split: option.splits if_splits dest: preferred_in_backends)
    let ?st1 = "st\<lparr>probed := probed st @ [b_name b], now := now st + int (elapsed (probe w b))\<rparr>"
    obtain info where rp: "run_probe w b st = Inr (info, ?st1)"
      and tg: "testGPUBackend (probe w b) = Inr info"
      using run_probe_total by blast
    have nf: "\<not> truthy (info_isHardwareAccelerated info)"
      using testGPUBackend_failed [of "probe w b"] tg bin assms by auto
    show ?thesis
      using Some rp nf try_backends_all_failed [OF assms, of ?st1]
      by (auto simp: detect_fresh_def bind_sum_def)
  qed
qed

lemma detect_total:
  "\<exists>cfg st'. detectBestGPUConfig opts w st = Inr (cfg, st') \<and> cachedConfig st' = Some cfg"
proof (cases "if forceDetect opts then None else cachedConfig st")
  case (Some c)
  then show ?thesis
    by (auto simp: detectBestGPUConfig_def split: if_splits)
next
  case None
  obtain cfg st' where fr: "detect_fresh opts w st = Inr (cfg, st')" "cachedConfig st' = Some cfg"
    using detect_fresh_total by blast
  obtain r where ld: "loadCachedConfig st = Inr r"
    by (cases "loadCachedConfig_try st") (auto simp: loadCachedConfig_def)
  show ?thesis
    using None fr ld
    by (cases r) (auto simp: detectBestGPUConfig_def bind_sum_def)
qed


lemmas eval_defs =
  detectBestGPUConfig_def detect_fresh_def try_backends.simps run_probe_def remember_def
  saveCachedConfig_def saveCachedConfig_try_def loadCachedConfig_def loadCachedConfig_try_def
  testGPUBackend_def testGPUBackend_try_def bind_sum_def probe_script_def isSoftware_def
  toLowerCase_def lower_char_def truthy_def config_of_def backends_of_def GPU_BACKENDS_def
  linux_backends_def CACHE_TTL_def

lemma first_detection:
  "detectBestGPUConfig default_options world_gpu fresh_detector
     = Inr (vulkan_nvidia, detector_after_vulkan)"
  by (simp add: eval_defs default_options_def world_gpu_def fresh_detector_def probe_nvidia_def
        vulkan_nvidia_def detector_after_vulkan_def)

text \<open>
  Claim C4. The detector's classifier, run on the renderer string \<open>Mesa DRI (LLVM 15.0.7)\<close>,
  which contains both \<open>mesa\<close> and \<open>llvm\<close> and none of the four single signatures, reports
  hardware acceleration; the classifier of the diagnostics script calls the same string
  software.
\<close>

theorem probe_script_mesa_llvm:
  "info_isHardwareAccelerated
     (probe_script (WebGLDebug (Some ''Mesa DRI (LLVM 15.0.7)'') (Some ''Mesa''))) = Some True
   \<and> isSoftware_diagnostics (Some ''Mesa DRI (LLVM 15.0.7)'')"
  by (simp add: probe_script_def isSoftware_def isSoftware_diagnostics_def toLowerCase_def
        lower_char_def)

text \<open>
  Claim C7, as stated, fails: the detector that cached the Vulkan profile at time 1500 ms is
  asked again 25 hours later, without \<open>forceDetect\<close>, in a world where no probe succeeds any
  more. The age of the entry is past the 24 h TTL, yet the call returns the old profile from
  the module variable and launches no probe (the state, with its probe log, is unchanged).
\<close>

theorem detect_stale_memory_counterexample:
  "detectBestGPUConfig default_options world_gpu fresh_detector
     = Inr (vulkan_nvidia, detector_after_vulkan)
   \<and> \<not> (now (detector_after_vulkan\<lparr>now := 1500 + 25 * 60 * 60 * 1000\<rparr>) - 1500 < CACHE_TTL)
   \<and> detectBestGPUConfig default_options world_headless
        (detector_after_vulkan\<lparr>now := 1500 + 25 * 60 * 60 * 1000\<rparr>)
      = Inr (vulkan_nvidia, detector_after_vulkan\<lparr>now := 1500 + 25 * 60 * 60 * 1000\<rparr>)"
  using first_detection
  by (simp add: detectBestGPUConfig_def default_options_def detector_after_vulkan_def
        CACHE_TTL_def)

text \<open>
  Claim C7, amended. (1) After a detector call has returned a profile, a later call without
  \<open>forceDetect\<close> in the same process returns the identical profile and launches no probe,
  however much time has passed (the in-memory copy has no timestamp). (2) In a process whose
  in-memory copy is empty, a call without \<open>forceDetect\<close> returns the profile stored in the
  cache file without probing while \<open>now - timestamp < 24h\<close>. (3) In such a process, once
  \<open>now - timestamp \<ge> 24h\<close>, the stored profile is ignored and the candidates are probed
  again: at least one probe of a candidate of the platform is launched.
\<close>

theorem detect_cache_ttl:
  "(detectBestGPUConfig opts1 w1 st = Inr (cfg, st1) \<and> \<not> forceDetect opts2
      \<longrightarrow> detectBestGPUConfig opts2 w2 (st1\<lparr>now := t\<rparr>) = Inr (cfg, st1\<lparr>now := t\<rparr>))
   \<and> (cachedConfig st2 = None \<and> cacheFile st2 = Cache (Some ts2) (Some c2)
        \<and> \<not> forceDetect opts2 \<and> now st2 - ts2 < CACHE_TTL
      \<longrightarrow> detectBestGPUConfig opts2 w2 st2 = Inr (c2, st2\<lparr>cachedConfig := Some c2\<rparr>))
   \<and> (cachedConfig st3 = None \<and> cacheFile st3 = Cache (Some ts3) (Some c3)
        \<and> \<not> now st3 - ts3 < CACHE_TTL
      \<longrightarrow> (\<exists>cfg' st' n more. detectBestGPUConfig opts2 w2 st3 = Inr (cfg', st')
             \<and> probed st' = probed st3 @ n # more
             \<and> n \<in> b_name ` set (backends_of (platform w2))))"
proof (intro conjI impI)
  assume a: "detectBestGPUConfig opts1 w1 st = Inr (cfg, st1) \<and> \<not> forceDetect opts2"
  have "cachedConfig st1 = Some cfg"
    using detect_total [of opts1 w1 st] a by auto
  then show "detectBestGPUConfig opts2 w2 (st1\<lparr>now := t\<rparr>) = Inr (cfg, st1\<lparr>now := t\<rparr>)"
    using a by (simp add: detectBestGPUConfig_def)
next
  assume "cachedConfig st2 = None \<and> cacheFile st2 = Cache (Some ts2) (Some c2)
            \<and> \<not> forceDetect opts2 \<and> now st2 - ts2 < CACHE_TTL"
  then show "detectBestGPUConfig opts2 w2 st2 = Inr (c2, st2\<lparr>cachedConfig := Some c2\<rparr>)"
    by (simp add: detectBestGPUConfig_def loadCachedConfig_def loadCachedConfig_try_def
          bind_sum_def)
next
  assume a: "cachedConfig st3 = None \<and> cacheFile st3 = Cache (Some ts3) (Some c3)
            \<and> \<not> now st3 - ts3 < CACHE_TTL"
  then have "detectBestGPUConfig opts2 w2 st3 = detect_fresh opts2 w2 st3"
    by (simp add: detectBestGPUConfig_def loadCachedConfig_def loadCachedConfig_try_def
          bind_sum_def)
  then show "\<exists>cfg' st' n more. detectBestGPUConfig opts2 w2 st3 = Inr (cfg', st')
             \<and> probed st' = probed st3 @ n # more
             \<and> n \<in> b_name ` set (backends_of (platform w2))"
    using detect_fresh_total [of opts2 w2 st3] by auto
qed

theorem detect_cache_ttl_witness:
  "detectBestGPUConfig default_options world_gpu fresh_detector
      = Inr (vulkan_nvidia, detector_after_vulkan)
   \<and> \<not> forceDetect default_options
   \<and> detectBestGPUConfig default_options world_headless
        (detector_after_vulkan\<lparr>now := 1500 + hours 25\<rparr>)
      = Inr (vulkan_nvidia, detector_after_vulkan\<lparr>now := 1500 + hours 25\<rparr>)
   \<and> cachedConfig (restarted_detector (1500 + hours 1)) = None
   \<and> cacheFile (restarted_detector (1500 + hours 1)) = Cache (Some 1500) (Some vulkan_nvidia)
   \<and> now (restarted_detector (1500 + hours 1)) - 1500 < CACHE_TTL
   \<and> detectBestGPUConfig default_options world_headless (restarted_detector (1500 + hours 1))
      = Inr (vulkan_nvidia,
             (restarted_detector (1500 + hours 1))\<lparr>cachedConfig := Some vulkan_nvidia\<rparr>)
   \<and> cachedConfig (restarted_detector (1500 + hours 25)) = None
   \<and> cacheFile (restarted_detector (1500 + hours 25)) = Cache (Some 1500) (Some vulkan_nvidia)
   \<and> \<not> now (restarted_detector (1500 + hours 25)) - 1500 < CACHE_TTL
   \<and> (\<exists>cfg' st' n more.
         detectBestGPUConfig default_options world_headless (restarted_detector (1500 + hours 25))
           = Inr (cfg', st')
         \<and> probed st' = probed (restarted_detector (1500 + hours 25)) @ n # more
         \<and> n \<in> b_name ` set (backends_of (platform world_headless)))"
proof -
  have h1: "detectBestGPUConfig default_options world_gpu fresh_detector
      = Inr (vulkan_nvidia, detector_after_vulkan)"
    by (rule first_detection)
  have h2: "\<not> forceDetect default_options"
    by (simp add: default_options_def)
  have h3: "cachedConfig (restarted_detector (1500 + hours 1)) = None
      \<and> cacheFile (restarted_detector (1500 + hours 1)) = Cache (Some 1500) (Some vulkan_nvidia)
      \<and> now (restarted_detector (1500 + hours 1)) - 1500 < CACHE_TTL"
    by (simp add: restarted_detector_def hours_def CACHE_TTL_def)
  have h4: "cachedConfig (restarted_detector (1500 + hours 25)) = None
      \<and> cacheFile (restarted_detector (1500 + hours 25)) = Cache (Some 1500) (Some vulkan_nvidia)
      \<and> \<not> now (restarted_detector (1500 + hours 25)) - 1500 < CACHE_TTL"
    by (simp add: restarted_detector_def hours_def CACHE_TTL_def)
  show ?thesis
    using h1 h2 h3 h4
      detect_cache_ttl [of default_options world_gpu fresh_detector vulkan_nvidia
        detector_after_vulkan default_options world_headless "1500 + hours 25"
        "restarted_detector (1500 + hours 1)" 1500 vulkan_nvidia
        "restarted_detector (1500 + hours 25)" 1500 vulkan_nvidia]
    by blast
qed

text \<open>
  Claim C8. \<^verbatim>\<open>detectBestGPUConfig\<close> never throws: for every option record, every behaviour
  of the outside world and every detector state it returns a profile. Every failed probe
  (launch error or timeout, crashed page, no WebGL capability) is caught inside
  \<^verbatim>\<open>testGPUBackend\<close> and reported as unsupported and not accelerated. When detection
  reaches the candidates (forced, or nothing usable cached) and every candidate's probe
  fails, the profile returned is the software fallback: backend \<open>software\<close>, not
  hardware-accelerated.
\<close>

theorem detectBestGPUConfig_never_throws:
  "(\<exists>cfg st'. detectBestGPUConfig opts w st = Inr (cfg, st')
      \<and> ((forceDetect opts \<or> (cachedConfig st = None \<and> loadCachedConfig st = Inr None))
           \<and> (\<forall>b\<in>set (backends_of (platform w)). probe_failed (probe w b))
         \<longrightarrow> cfg = software_config \<and> backend cfg = ''software''
             \<and> \<not> isHardwareAccelerated cfg))
   \<and> (probe_failed p \<longrightarrow>
        (\<exists>info. testGPUBackend p = Inr info \<and> \<not> supported info
           \<and> \<not> truthy (info_isHardwareAccelerated info)))"
proof (intro conjI impI)
  obtain cfg st' where r: "detectBestGPUConfig opts w st = Inr (cfg, st')"
    using detect_total by blast
  have "cfg = software_config"
    if reach: "forceDetect opts \<or> (cachedConfig st = None \<and> loadCachedConfig st = Inr None)"
    and fail: "\<forall>b\<in>set (backends_of (platform w)). probe_failed (probe w b)"
  proof -
    have "detectBestGPUConfig opts w st = detect_fresh opts w st"
      using reach by (auto simp: detectBestGPUConfig_def bind_sum_def)
    then show ?thesis
      using detect_fresh_all_failed [OF fail, of opts st] r by auto
  qed
  moreover have "backend software_config = ''software''"
    "\<not> isHardwareAccelerated software_config"
    by (simp_all add: software_config_def SOFTWARE_FALLBACK_def)
  ultimately show "\<exists>cfg st'. detectBestGPUConfig opts w st = Inr (cfg, st')
      \<and> ((forceDetect opts \<or> (cachedConfig st = None \<and> loadCachedConfig st = Inr None))
           \<and> (\<forall>b\<in>set (backends_of (platform w)). probe_failed (probe w b))
         \<longrightarrow> cfg = software_config \<and> backend cfg = ''software''
             \<and> \<not> isHardwareAccelerated cfg)"
    using r by auto
next
  assume "probe_failed p"
  then show "\<exists>info. testGPUBackend p = Inr info \<and> \<not> supported info
           \<and> \<not> truthy (info_isHardwareAccelerated info)"
    by (rule testGPUBackend_failed)
qed

theorem detectBestGPUConfig_never_throws_witness:
  "(cachedConfig fresh_detector = None \<and> loadCachedConfig fresh_detector = Inr None)
   \<and> list_all (\<lambda>b. probe_failed (probe world_headless b)) (backends_of (platform world_headless))
   \<and> probe_failed probe_timeout
   \<and> (\<exists>st'. detectBestGPUConfig default_options world_headless fresh_detector
              = Inr (software_config, st'))
   \<and> (\<exists>info. testGPUBackend probe_timeout = Inr info \<and> \<not> supported info
           \<and> \<not> truthy (info_isHardwareAccelerated info))"
proof -
  have h1: "cachedConfig fresh_detector = None \<and> loadCachedConfig fresh_detector = Inr None"
    by (simp add: fresh_detector_def loadCachedConfig_def loadCachedConfig_try_def)
  have h2: "probe_failed probe_timeout"
    by (simp add: probe_failed_def probe_timeout_def)
  have h3: "\<forall>b\<in>set (backends_of (platform world_headless)). probe_failed (probe world_headless b)"
    using h2 by (simp add: world_headless_def)
  have h4: "list_all (\<lambda>b. probe_failed (probe world_headless b))
      (backends_of (platform world_headless))"
    using h3 by (simp add: list_all_iff)
  show ?thesis
    using h1 h2 h3 h4
      detectBestGPUConfig_never_throws [of default_options world_headless fresh_detector
        probe_timeout]
    by blast
qed

section \<open>Resource lifecycle of a parallel render job\<close>

text \<open>
  The control skeleton of \<^verbatim>\<open>renderToMp4Parallel\<close>:
  \<^verbatim>\<open>
  if (!duration || duration <= 0) { duration = await getTimelineDuration(..); if (!duration) throw .. }
  const { url, cleanup: cleanupServer } = await createVideoServer(..)
  const gpuConfig = await getOptimalChromiumConfig()
  const browser = await chromium.launch(launchOptions)
  try {
      .. open the encoder surface and the worker surfaces, start the encoder ..
      .. capture and encode all frames ..
      .. finalize, write the file ..
      return output
  } finally {
      await browser.close()
      await cleanupServer()
  }
  \<close>
  Every awaited stage either resolves or rejects; what it does is an input of the model.
  The effects on the two resources are logged in order.
\<close>

record job_world =
  resolveDuration :: "failure + unit"
  createVideoServer :: "failure + unit"
  getOptimalChromiumConfig :: "failure + unit"
  chromium_launch :: "failure + unit"
  openSurfaces :: "failure + unit"
  captureAndEncode :: "failure + unit"
  finalizeAndWrite :: "failure + unit"
  browser_close :: "failure + unit"
  cleanupServer :: "failure + unit"

datatype effect = ServerCreated | BrowserLaunched | BrowserCloseCalled | CleanupServerCalled

text \<open>The \<^verbatim>\<open>try\<close> block: the first rejection leaves it; otherwise it returns the output path.\<close>

definition try_block :: "job_world \<Rightarrow> string \<Rightarrow> failure + string" where
  "try_block jw output =
     bind_sum (openSurfaces jw) (\<lambda>_.
     bind_sum (captureAndEncode jw) (\<lambda>_.
     bind_sum (finalizeAndWrite jw) (\<lambda>_.
     Inr output)))"

text \<open>
  The \<^verbatim>\<open>finally\<close> block: \<^verbatim>\<open>cleanupServer\<close> is called only after \<^verbatim>\<open>browser.close\<close>
  has resolved.
\<close>

definition finally_block :: "job_world \<Rightarrow> (failure + unit) \<times> effect list" where
  "finally_block jw =
     (case browser_close jw of
        Inl e \<Rightarrow> (Inl e, [BrowserCloseCalled])
      | Inr _ \<Rightarrow>
          (case cleanupServer jw of
             Inl e \<Rightarrow> (Inl e, [BrowserCloseCalled, CleanupServerCalled])
           | Inr _ \<Rightarrow> (Inr (), [BrowserCloseCalled, CleanupServerCalled])))"

text \<open>
  \<^verbatim>\<open>try { .. } finally { .. }\<close>: the block's completion (value or rejection) surfaces after
  the \<^verbatim>\<open>finally\<close> block has run, unless that block rejects itself.
\<close>

definition renderToMp4Parallel_lifecycle :: "job_world \<Rightarrow> string \<Rightarrow> (failure + string) \<times> effect list" where
  "renderToMp4Parallel_lifecycle jw output =
     (case resolveDuration jw of
        Inl e \<Rightarrow> (Inl e, [])
      | Inr _ \<Rightarrow>
     (case createVideoServer jw of
        Inl e \<Rightarrow> (Inl e, [])
      | Inr _ \<Rightarrow>
     (case getOptimalChromiumConfig jw of
        Inl e \<Rightarrow> (Inl e, [ServerCreated])
      | Inr _ \<Rightarrow>
     (case chromium_launch jw of
        Inl e \<Rightarrow> (Inl e, [ServerCreated])
      | Inr _ \<Rightarrow>
          (let body = try_block jw output;
               (fin, effects) = finally_block jw
           in (case fin of Inl e \<Rightarrow> Inl e | Inr _ \<Rightarrow> body,
               [ServerCreated, BrowserLaunched] @ effects))))))"

text \<open>Sample jobs: all stages resolve except the one named.\<close>

definition job_ok :: job_world where
  "job_ok =
     \<lparr>resolveDuration = Inr (), createVideoServer = Inr (), getOptimalChromiumConfig = Inr (),
      chromium_launch = Inr (), openSurfaces = Inr (), captureAndEncode = Inr (),
      finalizeAndWrite = Inr (), browser_close = Inr (), cleanupServer = Inr ()\<rparr>"

definition job_launch_fails :: job_world where
  "job_launch_fails = job_ok\<lparr>chromium_launch := Inl (Rejected ''browserType.launch: Executable does not exist'')\<rparr>"

definition job_capture_fails :: job_world where
  "job_capture_fails = job_ok\<lparr>captureAndEncode := Inl (Rejected ''page.evaluate: Target closed'')\<rparr>"

text \<open>
  Claim C9, as stated, fails: a job whose server was created and whose browser launch then
  rejects fails after it began, and the error surfaces with the serving endpoint still up
  (\<^verbatim>\<open>cleanupServer\<close> is never called: the launch is outside the \<^verbatim>\<open>try\<close> block).
\<close>

theorem launch_failure_counterexample:
  "renderToMp4Parallel_lifecycle job_launch_fails ''./output.mp4''
     = (Inl (Rejected ''browserType.launch: Executable does not exist''), [ServerCreated])"
  by (simp add: renderToMp4Parallel_lifecycle_def job_launch_fails_def job_ok_def)

text \<open>
  Claim C9, amended. Once the serving endpoint has been created and the browser host process
  launched, every way of leaving the \<^verbatim>\<open>try\<close> block, whether a failure of surface setup,
  of capture or encode, or of finalization, or the successful return, is followed by the call
  of \<^verbatim>\<open>browser.close()\<close>, and when that call resolves by the call of
  \<^verbatim>\<open>cleanupServer()\<close>, both before the result or the error surfaces. The error of the
  failed stage is the one that surfaces when both teardown calls resolve.
\<close>

theorem teardown_after_launch:
  assumes "resolveDuration jw = Inr ()" and "createVideoServer jw = Inr ()"
    and "getOptimalChromiumConfig jw = Inr ()" and "chromium_launch jw = Inr ()"
  shows "\<exists>r. renderToMp4Parallel_lifecycle jw output =
           (r, [ServerCreated, BrowserLaunched, BrowserCloseCalled]
               @ (if isl (browser_close jw) then [] else [CleanupServerCalled]))
         \<and> (\<not> isl (browser_close jw) \<and> \<not> isl (cleanupServer jw) \<longrightarrow> r = try_block jw output)
         \<and> (isl (try_block jw output) \<longrightarrow> isl r)"
  using assms
  by (auto simp: renderToMp4Parallel_lifecycle_def finally_block_def isl_def
           split: sum.splits)

theorem teardown_after_launch_witness:
  "resolveDuration job_capture_fails = Inr () \<and> createVideoServer job_capture_fails = Inr ()
   \<and> getOptimalChromiumConfig job_capture_fails = Inr ()
   \<and> chromium_launch job_capture_fails = Inr ()
   \<and> \<not> isl (browser_close job_capture_fails) \<and> \<not> isl (cleanupServer job_capture_fails)
   \<and> isl (try_block job_capture_fails ''./output.mp4'')
   \<and> renderToMp4Parallel_lifecycle job_capture_fails ''./output.mp4'' =
        (Inl (Rejected ''page.evaluate: Target closed''),
         [ServerCreated, BrowserLaunched, BrowserCloseCalled, CleanupServerCalled])"
proof -
  have h: "resolveDuration job_capture_fails = Inr ()" "createVideoServer job_capture_fails = Inr ()"
    "getOptimalChromiumConfig job_capture_fails = Inr ()"
    "chromium_launch job_capture_fails = Inr ()"
    by (simp_all add: job_capture_fails_def job_ok_def)
  have t: "try_block job_capture_fails ''./output.mp4'' = Inl (Rejected ''page.evaluate: Target closed'')"
    by (simp add: try_block_def bind_sum_def job_capture_fails_def job_ok_def)
  have c: "\<not> isl (browser_close job_capture_fails)" "\<not> isl (cleanupServer job_capture_fails)"
    by (simp_all add: job_capture_fails_def job_ok_def)
  show ?thesis
    using teardown_after_launch [OF h, of "''./output.mp4''"] h t c by auto
qed

section \<open>Scatter-gather orchestration\<close>

subsection \<open>The reassembly buffer\<close>

text \<open>
  \<^verbatim>\<open>const frameBuffer = new Map()\<close>: a JavaScript \<^verbatim>\<open>Map\<close> from frame index to
  payload, as the list of its entries in insertion order. \<^verbatim>\<open>set\<close> on a key that is
  present replaces the value in place; on a new key it appends the entry.
\<close>

type_synonym 'p frame_map = "(nat \<times> 'p) list"

definition Map_has :: "'p frame_map \<Rightarrow> nat \<Rightarrow> bool" where
  "Map_has m k = (map_of m k \<noteq> None)"

definition Map_get :: "'p frame_map \<Rightarrow> nat \<Rightarrow> 'p option" where
  "Map_get m k = map_of m k"

fun Map_set :: "'p frame_map \<Rightarrow> nat \<Rightarrow> 'p \<Rightarrow> 'p frame_map" where
  "Map_set [] k v = [(k, v)]"
| "Map_set ((k', v') # m) k v = (if k' = k then (k, v) # m else (k', v') # Map_set m k v)"

definition Map_delete :: "'p frame_map \<Rightarrow> nat \<Rightarrow> 'p frame_map" where
  "Map_delete m k = filter (\<lambda>e. fst e \<noteq> k) m"

definition Map_size :: "'p frame_map \<Rightarrow> nat" where
  "Map_size m = length m"

definition MAX_BUFFERED_FRAMES :: nat where
  "MAX_BUFFERED_FRAMES = 300"

definition ENCODE_BATCH_SIZE :: nat where
  "ENCODE_BATCH_SIZE = 5"

subsection \<open>The job and its state\<close>

text \<open>
  A job: the frame rate, the number of frames \<^verbatim>\<open>Math.ceil(duration * fps)\<close>, the number
  of capture workers, and what \<^verbatim>\<open>captureFrameJPEG(pages[w + 1], timestamp)\<close> returns on
  worker \<open>w\<close>'s surface. JavaScript numbers are taken as the rationals they denote:
  the timestamp of frame \<open>i\<close> is \<open>i / fps\<close> (the rounding of the double quotient
  is not modelled).
\<close>

record 'p job =
  fps :: rat
  totalFrames :: nat
  numWorkers :: nat
  capture :: "nat \<Rightarrow> rat \<Rightarrow> 'p"

text \<open>
  \<^verbatim>\<open>const totalFrames = Math.ceil(duration * fps)\<close>, for a duration in whole seconds and a
  whole frame rate: the double product of two whole numbers is the exact product (below
  \<open>2\<^sup>5\<^sup>3\<close>). How the double product of other values is rounded is not modelled; a
  job carries its frame count.
\<close>

definition totalFrames_of :: "nat \<Rightarrow> nat \<Rightarrow> nat" where
  "totalFrames_of duration fps' = nat \<lceil>(of_nat duration :: rat) * of_nat fps'\<rceil>"

text \<open>
  Where a task is suspended. A worker (\<^verbatim>\<open>runWorker\<close>) waits for its first turn, for the
  50 ms timer of the flow-control loop, for its capture, or inside
  \<^verbatim>\<open>await processEncodeQueue()\<close>: for the encoder page working through a batch
  (\<open>Encoding\<close>, with the call's local \<^verbatim>\<open>lookahead\<close>, the batch length and the frames
  the page has still to add), or for the caller's own continuation once the call has
  returned, at once when it found nothing to send (\<open>Yielded\<close>). The main task waits for \<^verbatim>\<open>Promise.all\<close> of the workers
  (\<open>Ready\<close>), then runs the final loop with its 100 ms timer. \<open>cont\<close> says where
  \<^verbatim>\<open>processEncodeQueue\<close> was called from.
\<close>

datatype cont = AfterInsert | InWaitLoop | InFinalLoop

datatype 'p pc =
    Ready
  | Sleeping
  | Capturing
  | Encoding cont nat nat "('p \<times> rat) list"
  | Yielded cont
  | Done

record 'p worker =
  frames :: "nat list"
  wpc :: "'p pc"

record 'p orchestration =
  frameBuffer :: "'p frame_map"
  nextEncodeFrame :: nat
  encodedCount :: nat
  workers :: "'p worker list"
  mainpc :: "'p pc"
  appended :: "('p \<times> rat \<times> rat) list"

text \<open>
  The synchronous head of \<^verbatim>\<open>processEncodeQueue\<close>:
  \<^verbatim>\<open>
  let lookahead = nextEncodeFrame
  while (frameBuffer.has(lookahead) && batch.length < ENCODE_BATCH_SIZE) {
      batch.push({ dataUrl: frameBuffer.get(lookahead), timestamp: lookahead / fps })
      frameBuffer.delete(lookahead)
      lookahead++
  }
  \<close>
  \<open>room\<close> is \<open>ENCODE_BATCH_SIZE - batch.length\<close>; the result is the batch, the buffer
  and \<open>lookahead\<close> at loop exit.
\<close>

primrec collect :: "rat \<Rightarrow> nat \<Rightarrow> 'p frame_map \<Rightarrow> nat \<Rightarrow> ('p \<times> rat) list \<times> 'p frame_map \<times> nat" where
  "collect r 0 buf lookahead = ([], buf, lookahead)"
| "collect r (Suc room) buf lookahead =
     (case Map_get buf lookahead of
        None \<Rightarrow> ([], buf, lookahead)
      | Some dataUrl \<Rightarrow>
          (case collect r room (Map_delete buf lookahead) (lookahead + 1) of
             (batch, buf', lookahead') \<Rightarrow>
               ((dataUrl, of_nat lookahead / r) # batch, buf', lookahead')))"

text \<open>
  \<^verbatim>\<open>processEncodeQueue\<close> up to its first suspension: with a non-empty batch the call
  awaits \<^verbatim>\<open>encoderPage.evaluate\<close>; with an empty one it returns at once and the caller's
  \<^verbatim>\<open>await\<close> yields.
\<close>

definition processEncodeQueue :: "'p job \<Rightarrow> cont \<Rightarrow> 'p orchestration \<Rightarrow> 'p pc \<times> 'p orchestration" where
  "processEncodeQueue j c s =
     (case collect (fps j) ENCODE_BATCH_SIZE (frameBuffer s) (nextEncodeFrame s) of
        (batch, buf', lookahead) \<Rightarrow>
          if length batch > 0
          then (Encoding c lookahead (length batch) batch, s\<lparr>frameBuffer := buf'\<rparr>)
          else (Yielded c, s\<lparr>frameBuffer := buf'\<rparr>))"

text \<open>
  The top of an iteration of \<^verbatim>\<open>for (const frameIndex of frames)\<close>:
  \<^verbatim>\<open>
  if (frameBuffer.size > MAX_BUFFERED_FRAMES) {
      while (frameBuffer.size > MAX_BUFFERED_FRAMES - ENCODE_BATCH_SIZE) {
          await new Promise(r => setTimeout(r, 50))
          await processEncodeQueue()
      }
  }
  const timestamp = frameIndex / fps
  const dataUrl = await captureFrameJPEG(page, timestamp)
  \<close>
\<close>

definition wait_check :: "'p orchestration \<Rightarrow> 'p pc" where
  "wait_check s =
     (if Map_size (frameBuffer s) > MAX_BUFFERED_FRAMES - ENCODE_BATCH_SIZE then Sleeping
      else Capturing)"

definition loop_top :: "'p orchestration \<Rightarrow> nat list \<Rightarrow> 'p pc" where
  "loop_top s fs =
     (case fs of
        [] \<Rightarrow> Done
      | f # _ \<Rightarrow>
          if Map_size (frameBuffer s) > MAX_BUFFERED_FRAMES then wait_check s else Capturing)"

text \<open>Where a worker goes on after \<^verbatim>\<open>await processEncodeQueue()\<close>.\<close>

definition resume_worker :: "cont \<Rightarrow> 'p orchestration \<Rightarrow> nat list \<Rightarrow> 'p pc option" where
  "resume_worker c s fs =
     (case c of
        AfterInsert \<Rightarrow> Some (loop_top s fs)
      | InWaitLoop \<Rightarrow> Some (wait_check s)
      | InFinalLoop \<Rightarrow> None)"

definition set_pc :: "nat \<Rightarrow> 'p pc \<Rightarrow> 'p orchestration \<Rightarrow> 'p orchestration" where
  "set_pc w p s = s\<lparr>workers := (workers s)[w := (workers s ! w)\<lparr>wpc := p\<rparr>]\<rparr>"

text \<open>
  One turn of worker \<open>w\<close>: the code it runs from the suspension it is at to the next one.
  In \<open>Encoding\<close> the turn is the encoder page's: \<^verbatim>\<open>loadAndEncode\<close> draws the next image
  and calls \<^verbatim>\<open>add(timestamp, 1 / fps)\<close>, or, the batch done, \<^verbatim>\<open>evaluate\<close> resolves and
  \<^verbatim>\<open>nextEncodeFrame = lookahead; encodedCount += batch.length\<close> runs, after which the
  caller's \<^verbatim>\<open>await processEncodeQueue()\<close> resumes in a later turn. The progress callback
  and the logging are left out; captures and encoder calls are taken to succeed (what a
  failure does to the job is modelled with the job's resources above).
  \<open>None\<close>: the task has no turn to take.
\<close>

definition worker_step :: "'p job \<Rightarrow> nat \<Rightarrow> 'p orchestration \<Rightarrow> 'p orchestration option" where
  "worker_step j w s =
     (if w < length (workers s) then
        (let wk = workers s ! w in
         case wpc wk of
           Ready \<Rightarrow> Some (set_pc w (loop_top s (frames wk)) s)
         | Sleeping \<Rightarrow>
             (case processEncodeQueue j InWaitLoop s of (p, s') \<Rightarrow> Some (set_pc w p s'))
         | Capturing \<Rightarrow>
             (case frames wk of
                [] \<Rightarrow> None
              | frameIndex # rest \<Rightarrow>
                  (let timestamp = of_nat frameIndex / fps j;
                       dataUrl = capture j w timestamp;
                       s1 = s\<lparr>frameBuffer := Map_set (frameBuffer s) frameIndex dataUrl,
                              workers := (workers s)[w := wk\<lparr>frames := rest\<rparr>]\<rparr>
                   in case processEncodeQueue j AfterInsert s1 of
                        (p, s2) \<Rightarrow> Some (set_pc w p s2)))
         | Encoding c lookahead n batch \<Rightarrow>
             (case batch of
                frame # rest \<Rightarrow>
                  Some (set_pc w (Encoding c lookahead n rest)
                         (s\<lparr>appended := appended s @ [(fst frame, snd frame, 1 / fps j)]\<rparr>))
              | [] \<Rightarrow>
                  Some (set_pc w (Yielded c)
                         (s\<lparr>nextEncodeFrame := lookahead, encodedCount := encodedCount s + n\<rparr>)))
         | Yielded c \<Rightarrow>
             (case resume_worker c s (frames wk) of
                None \<Rightarrow> None
              | Some p \<Rightarrow> Some (set_pc w p s))
         | Done \<Rightarrow> None)
      else None)"

text \<open>
  The main task:
  \<^verbatim>\<open>
  await Promise.all(Array.from({ length: numWorkers }, (_, i) => runWorker(i)))
  while (encodedCount < totalFrames) {
      await processEncodeQueue()
      if (encodedCount < totalFrames) await new Promise(r => setTimeout(r, 100))
  }
  \<close>
\<close>

definition final_loop :: "'p job \<Rightarrow> 'p orchestration \<Rightarrow> 'p orchestration" where
  "final_loop j s =
     (if encodedCount s < totalFrames j
      then (case processEncodeQueue j InFinalLoop s of (p, s') \<Rightarrow> s'\<lparr>mainpc := p\<rparr>)
      else s\<lparr>mainpc := Done\<rparr>)"

definition resume_main :: "'p job \<Rightarrow> cont \<Rightarrow> 'p orchestration \<Rightarrow> 'p orchestration option" where
  "resume_main j c s =
     (case c of
        InFinalLoop \<Rightarrow>
          Some (if encodedCount s < totalFrames j then s\<lparr>mainpc := Sleeping\<rparr>
                else final_loop j s)
      | _ \<Rightarrow> None)"

definition main_step :: "'p job \<Rightarrow> 'p orchestration \<Rightarrow> 'p orchestration option" where
  "main_step j s =
     (case mainpc s of
        Ready \<Rightarrow> if list_all (\<lambda>wk. wpc wk = Done) (workers s) then Some (final_loop j s) else None
      | Sleeping \<Rightarrow> Some (final_loop j s)
      | Capturing \<Rightarrow> None
      | Encoding c lookahead n batch \<Rightarrow>
          (case batch of
             frame # rest \<Rightarrow>
               Some (s\<lparr>mainpc := Encoding c lookahead n rest,
                       appended := appended s @ [(fst frame, snd frame, 1 / fps j)]\<rparr>)
           | [] \<Rightarrow>
               Some (s\<lparr>nextEncodeFrame := lookahead, encodedCount := encodedCount s + n,
                       mainpc := Yielded c\<rparr>))
      | Yielded c \<Rightarrow> resume_main j c s
      | Done \<Rightarrow> None)"

datatype task = Worker nat | Main

definition step :: "'p job \<Rightarrow> task \<Rightarrow> 'p orchestration \<Rightarrow> 'p orchestration option" where
  "step j t s = (case t of Worker w \<Rightarrow> worker_step j w s | Main \<Rightarrow> main_step j s)"

text \<open>A schedule is the order in which the event loop gives the tasks their turns.\<close>

fun run :: "'p job \<Rightarrow> task list \<Rightarrow> 'p orchestration \<Rightarrow> 'p orchestration option" where
  "run j [] s = Some s"
| "run j (t # ts) s = (case step j t s of None \<Rightarrow> None | Some s' \<Rightarrow> run j ts s')"

text \<open>The state when \<^verbatim>\<open>Promise.all\<close> is reached; the partition can fail (no workers).\<close>

definition start :: "'p job \<Rightarrow> js_error + 'p orchestration" where
  "start j =
     (case frameAssignments (numWorkers j) (totalFrames j) of
        Inl e \<Rightarrow> Inl e
      | Inr fa \<Rightarrow>
          Inr \<lparr>frameBuffer = [], nextEncodeFrame = 0, encodedCount = 0,
               workers = map (\<lambda>fs. \<lparr>frames = fs, wpc = Ready\<rparr>) fa,
               mainpc = Ready, appended = []\<rparr>)"

text \<open>What the output container should hold after the first \<open>n\<close> frames.\<close>

definition expected :: "'p job \<Rightarrow> nat \<Rightarrow> ('p \<times> rat \<times> rat) list" where
  "expected j n =
     map (\<lambda>i. (capture j (i mod numWorkers j) (of_nat i / fps j), of_nat i / fps j, 1 / fps j))
       [0..<n]"

text \<open>A schedule that lets the workers take turns frame by frame.\<close>

definition round_robin :: "nat \<Rightarrow> nat \<Rightarrow> task list" where
  "round_robin W N =
     map Worker [0..<W] @ concat (map (\<lambda>i. replicate 4 (Worker (i mod W))) [0..<N]) @ [Main]"

definition render_job :: "nat \<Rightarrow> nat \<Rightarrow> nat \<Rightarrow> (nat \<Rightarrow> rat \<Rightarrow> 'p) \<Rightarrow> 'p job" where
  "render_job fps' duration workers' cap =
     \<lparr>fps = of_nat fps', totalFrames = totalFrames_of duration fps', numWorkers = workers',
      capture = cap\<rparr>"

text \<open>Sample jobs; the payload of a capture is the timestamp it was taken at.\<close>

definition job60 :: "rat job" where
  "job60 = render_job 30 2 4 (\<lambda>w t. t)"

definition job3 :: "rat job" where
  "job3 = \<lparr>fps = 30, totalFrames = 3, numWorkers = 2, capture = (\<lambda>w t. t)\<rparr>"

subsection \<open>Facts about the buffer operations\<close>

lemma map_of_Map_set: "map_of (Map_set m k v) = (map_of m)(k \<mapsto> v)"
  by (induction m) (auto simp: fun_eq_iff)

lemma keys_Map_set: "fst ` set (Map_set m k v) = insert k (fst ` set m)"
  by (simp add: dom_map_of_conv_image_fst [symmetric] map_of_Map_set)

lemma set_Map_set_subset: "set (Map_set m k v) \<subseteq> insert (k, v) (set m)"
  by (induction m) (auto split: if_splits)

lemma length_Map_set_le: "length (Map_set m k v) \<le> Suc (length m)"
  by (induction m) auto

lemma Map_set_fresh: "k \<notin> fst ` set m \<Longrightarrow> Map_set m k v = m @ [(k, v)]"
  by (induction m) auto

lemma Map_set_present:
  "k \<in> fst ` set m \<Longrightarrow>
     length (Map_set m k v) = length m \<and> map fst (Map_set m k v) = map fst m"
proof (induction m)
  case Nil
  then show ?case by simp
next
  case (Cons e m)
  show ?case
  proof (cases "fst e = k")
    case True
    then show ?thesis by (cases e) simp
  next
    case False
    then have "k \<in> fst ` set m" using Cons.prems by auto
    then show ?thesis using Cons.IH False by (cases e) simp
  qed
qed

lemma distinct_Map_set: "distinct (map fst m) \<Longrightarrow> distinct (map fst (Map_set m k v))"
proof (induction m)
  case Nil
  then show ?case by simp
next
  case (Cons e m)
  have "fst ` set (Map_set m k v) = insert k (fst ` set m)" by (rule keys_Map_set)
  then show ?case using Cons by (cases e) auto
qed

lemma map_of_Map_delete: "map_of (Map_delete m k) = (map_of m)(k := None)"
  by (induction m) (auto simp: Map_delete_def fun_eq_iff)

lemma map_of_None_iff: "map_of m k = None \<longleftrightarrow> k \<notin> fst ` set m"
  by (simp add: map_of_eq_None_iff)

text \<open>What one drain takes out of the buffer.\<close>

lemma collect_spec:
  assumes "collect r room buf l = (batch, buf', l')"
  shows "l' = l + length batch \<and> length batch \<le> room
         \<and> batch = map (\<lambda>i. (the (map_of buf i), of_nat i / r)) [l..<l']
         \<and> (\<forall>i. l \<le> i \<and> i < l' \<longrightarrow> i \<in> fst ` set buf)
         \<and> buf' = filter (\<lambda>e. \<not> (l \<le> fst e \<and> fst e < l')) buf
         \<and> (length batch < room \<longrightarrow> l' \<notin> fst ` set buf)"
  using assms
proof (induction room arbitrary: buf l batch buf' l')
  case 0
  then show ?case by auto
next
  case (Suc room)
  show ?case
  proof (cases "map_of buf l")
    case None
    then have "batch = []" "buf' = buf" "l' = l"
      using Suc.prems by (simp_all add: Map_get_def)
    moreover have nin: "l \<notin> fst ` set buf"
      using None by (simp add: map_of_None_iff)
    moreover have "filter (\<lambda>e. \<not> (l \<le> fst e \<and> fst e < l)) buf = buf"
      by simp
    ultimately show ?thesis by auto
  next
    case (Some d)
    obtain b0 where rec: "collect r room (Map_delete buf l) (l + 1) = (b0, buf', l')"
      and batch: "batch = (d, of_nat l / r) # b0"
      using Suc.prems Some by (auto simp: Map_get_def split: prod.splits)
    have l': "l' = l + 1 + length b0"
      and len0: "length b0 \<le> room"
      and b0d: "b0 = map (\<lambda>i. (the (map_of (Map_delete buf l) i), of_nat i / r)) [l + 1..<l']"
      and keys0: "\<forall>i. l + 1 \<le> i \<and> i < l' \<longrightarrow> i \<in> fst ` set (Map_delete buf l)"
      and buf0: "buf' = filter (\<lambda>e. \<not> (l + 1 \<le> fst e \<and> fst e < l')) (Map_delete buf l)"
      and stop0: "length b0 < room \<longrightarrow> l' \<notin> fst ` set (Map_delete buf l)"
      using Suc.IH [OF rec] by blast+
    have other: "\<And>i. l + 1 \<le> i \<Longrightarrow> map_of (Map_delete buf l) i = map_of buf i"
      by (simp add: map_of_Map_delete)
    have b0: "b0 = map (\<lambda>i. (the (map_of buf i), of_nat i / r)) [l + 1..<l']"
    proof -
      have "map (\<lambda>i. (the (map_of (Map_delete buf l) i), of_nat i / r)) [l + 1..<l']
            = map (\<lambda>i. (the (map_of buf i), of_nat i / r)) [l + 1..<l']"
        by (rule map_cong) (auto simp: other)
      with b0d show ?thesis by (rule trans)
    qed
    have lin: "l \<in> fst ` set buf"
      using Some by (metis map_of_None_iff option.distinct(1))
    have keys: "\<forall>i. l \<le> i \<and> i < l' \<longrightarrow> i \<in> fst ` set buf"
    proof (intro allI impI)
      fix i assume i: "l \<le> i \<and> i < l'"
      show "i \<in> fst ` set buf"
      proof (cases "i = l")
        case True
        then show ?thesis using lin by simp
      next
        case False
        then have "i \<in> fst ` set (Map_delete buf l)" using keys0 i by auto
        then show ?thesis by (auto simp: Map_delete_def)
      qed
    qed
    have buf': "buf' = filter (\<lambda>e. \<not> (l \<le> fst e \<and> fst e < l')) buf"
    proof -
      have "filter (\<lambda>e. \<not> (l + 1 \<le> fst e \<and> fst e < l')) (filter (\<lambda>e. fst e \<noteq> l) buf)
            = filter (\<lambda>e. \<not> (l \<le> fst e \<and> fst e < l')) buf"
        unfolding filter_filter using l' by (intro filter_cong) auto
      with buf0 show ?thesis by (simp only: Map_delete_def)
    qed
    have stop: "length batch < Suc room \<longrightarrow> l' \<notin> fst ` set buf"
    proof
      assume "length batch < Suc room"
      then have "l' \<notin> fst ` set (Map_delete buf l)" using stop0 batch by simp
      then show "l' \<notin> fst ` set buf"
        using l' by (auto simp: Map_delete_def)
    qed
    have hd: "the (map_of buf l) = d" using Some by simp
    have "l < l'" using l' by simp
    then have "[l..<l'] = l # [l + 1..<l']" by (simp add: upt_conv_Cons)
    then have bmap: "batch = map (\<lambda>i. (the (map_of buf i), of_nat i / r)) [l..<l']"
      using batch b0 hd by simp
    have "l' = l + length batch" using l' batch by simp
    moreover have "length batch \<le> Suc room" using len0 batch by simp
    ultimately show ?thesis
      using bmap keys buf' stop by blast
  qed
qed


subsection \<open>Tasks and their turns\<close>

definition pc_of :: "'p orchestration \<Rightarrow> task \<Rightarrow> 'p pc" where
  "pc_of s t = (case t of Main \<Rightarrow> mainpc s | Worker w \<Rightarrow> wpc (workers s ! w))"

definition is_task :: "'p orchestration \<Rightarrow> task \<Rightarrow> bool" where
  "is_task s t = (case t of Main \<Rightarrow> True | Worker w \<Rightarrow> w < length (workers s))"

definition put_pc :: "task \<Rightarrow> 'p pc \<Rightarrow> 'p orchestration \<Rightarrow> 'p orchestration" where
  "put_pc t p s = (case t of Main \<Rightarrow> s\<lparr>mainpc := p\<rparr> | Worker w \<Rightarrow> set_pc w p s)"

fun flying :: "'p pc \<Rightarrow> bool" where
  "flying (Encoding c l n r) = True"
| "flying p = False"

definition sent :: "'p job \<Rightarrow> 'p \<times> rat \<Rightarrow> 'p \<times> rat \<times> rat" where
  "sent j x = (fst x, snd x, 1 / fps j)"

text \<open>The state after the capture of \<open>f\<close> by worker \<open>w\<close> has been stored.\<close>

definition stored :: "'p job \<Rightarrow> nat \<Rightarrow> nat \<Rightarrow> nat list \<Rightarrow> 'p orchestration \<Rightarrow> 'p orchestration" where
  "stored j w f rest s =
     s\<lparr>frameBuffer := Map_set (frameBuffer s) f (capture j w (of_nat f / fps j)),
       workers := (workers s)[w := (workers s ! w)\<lparr>frames := rest\<rparr>]\<rparr>"

definition resolved :: "nat \<Rightarrow> nat \<Rightarrow> 'p orchestration \<Rightarrow> 'p orchestration" where
  "resolved l n s = s\<lparr>nextEncodeFrame := l, encodedCount := encodedCount s + n\<rparr>"

definition added :: "'p job \<Rightarrow> 'p \<times> rat \<Rightarrow> 'p orchestration \<Rightarrow> 'p orchestration" where
  "added j x s = s\<lparr>appended := appended s @ [sent j x]\<rparr>"

lemma frames_set_pc: "frames (workers (set_pc v p s) ! w) = frames (workers s ! w)"
proof (cases "v < length (workers s)")
  case True
  then show ?thesis by (cases "w = v") (simp_all add: set_pc_def)
next
  case False
  then show ?thesis by (simp add: set_pc_def not_less list_update_beyond)
qed

lemma frameBuffer_put_pc [simp]: "frameBuffer (put_pc t p s) = frameBuffer s"
  by (cases t) (simp_all add: put_pc_def set_pc_def)

lemma nextEncodeFrame_put_pc [simp]: "nextEncodeFrame (put_pc t p s) = nextEncodeFrame s"
  by (cases t) (simp_all add: put_pc_def set_pc_def)

lemma encodedCount_put_pc [simp]: "encodedCount (put_pc t p s) = encodedCount s"
  by (cases t) (simp_all add: put_pc_def set_pc_def)

lemma appended_put_pc [simp]: "appended (put_pc t p s) = appended s"
  by (cases t) (simp_all add: put_pc_def set_pc_def)

lemma length_workers_put_pc [simp]: "length (workers (put_pc t p s)) = length (workers s)"
  by (cases t) (simp_all add: put_pc_def set_pc_def)

lemma is_task_put_pc [simp]: "is_task (put_pc t p s) t' = is_task s t'"
  by (cases t; cases t') (simp_all add: put_pc_def set_pc_def is_task_def)

lemma frames_put_pc [simp]: "frames (workers (put_pc t p s) ! w) = frames (workers s ! w)"
  by (cases t) (simp_all add: put_pc_def frames_set_pc)

lemma pc_of_put_pc [simp]:
  "is_task s t \<Longrightarrow> pc_of (put_pc t p s) t' = (if t' = t then p else pc_of s t')"
  by (cases t; cases t')
     (simp_all add: put_pc_def set_pc_def is_task_def pc_of_def nth_list_update)

lemma mainpc_put_pc_worker [simp]: "mainpc (put_pc (Worker w) p s) = mainpc s"
  by (simp add: put_pc_def set_pc_def)

lemma workers_put_pc_main [simp]: "workers (put_pc Main p s) = workers s"
  by (simp add: put_pc_def)

lemma wpc_stored: "wpc (workers (stored j w f rest s) ! v) = wpc (workers s ! v)"
proof (cases "w < length (workers s)")
  case True
  then show ?thesis by (cases "v = w") (simp_all add: stored_def)
next
  case False
  then show ?thesis by (simp add: stored_def not_less list_update_beyond)
qed

lemma stored_simps [simp]:
  "frameBuffer (stored j w f rest s) = Map_set (frameBuffer s) f (capture j w (of_nat f / fps j))"
  "nextEncodeFrame (stored j w f rest s) = nextEncodeFrame s"
  "encodedCount (stored j w f rest s) = encodedCount s"
  "appended (stored j w f rest s) = appended s"
  "mainpc (stored j w f rest s) = mainpc s"
  "length (workers (stored j w f rest s)) = length (workers s)"
  by (simp_all add: stored_def)

lemma is_task_stored [simp]: "is_task (stored j w f rest s) t = is_task s t"
  by (cases t) (simp_all add: is_task_def)

lemma pc_of_stored [simp]: "pc_of (stored j w f rest s) t = pc_of s t"
  by (cases t) (simp_all add: pc_of_def wpc_stored)

lemma frames_stored:
  "w < length (workers s) \<Longrightarrow>
     frames (workers (stored j w f rest s) ! v) = (if v = w then rest else frames (workers s ! v))"
  by (simp add: stored_def nth_list_update)

lemma resolved_simps [simp]:
  "frameBuffer (resolved l n s) = frameBuffer s"
  "nextEncodeFrame (resolved l n s) = l"
  "encodedCount (resolved l n s) = encodedCount s + n"
  "appended (resolved l n s) = appended s"
  "workers (resolved l n s) = workers s"
  "mainpc (resolved l n s) = mainpc s"
  by (simp_all add: resolved_def)

lemma is_task_resolved [simp]: "is_task (resolved l n s) t = is_task s t"
  by (cases t) (simp_all add: is_task_def)

lemma pc_of_resolved [simp]: "pc_of (resolved l n s) t = pc_of s t"
  by (cases t) (simp_all add: pc_of_def)

lemma added_simps [simp]:
  "frameBuffer (added j x s) = frameBuffer s"
  "nextEncodeFrame (added j x s) = nextEncodeFrame s"
  "encodedCount (added j x s) = encodedCount s"
  "appended (added j x s) = appended s @ [sent j x]"
  "workers (added j x s) = workers s"
  "mainpc (added j x s) = mainpc s"
  by (simp_all add: added_def)

lemma is_task_added [simp]: "is_task (added j x s) t = is_task s t"
  by (cases t) (simp_all add: is_task_def)

lemma pc_of_added [simp]: "pc_of (added j x s) t = pc_of s t"
  by (cases t) (simp_all add: pc_of_def)


text \<open>The turns a worker can take, by the suspension it is at.\<close>

lemma worker_step_cases:
  assumes "worker_step j w s = Some s'"
  obtains
    (quiet) p where "w < length (workers s)"
      "wpc (workers s ! w) = Ready \<or> (\<exists>c. wpc (workers s ! w) = Yielded c)"
      "\<not> flying p" "p = Capturing \<longrightarrow> Map_size (frameBuffer s) \<le> MAX_BUFFERED_FRAMES"
      "s' = put_pc (Worker w) p s"
      "p = (if wpc (workers s ! w) = Yielded InWaitLoop then wait_check s
            else loop_top s (frames (workers s ! w)))"
      "wpc (workers s ! w) \<noteq> Yielded InFinalLoop"
  | (drain) p s1 where "w < length (workers s)" "wpc (workers s ! w) = Sleeping"
      "processEncodeQueue j InWaitLoop s = (p, s1)" "s' = put_pc (Worker w) p s1"
  | (insert) f rest p s2 where "w < length (workers s)" "wpc (workers s ! w) = Capturing"
      "frames (workers s ! w) = f # rest"
      "processEncodeQueue j AfterInsert (stored j w f rest s) = (p, s2)"
      "s' = put_pc (Worker w) p s2"
  | (add) c l n x xs where "w < length (workers s)"
      "wpc (workers s ! w) = Encoding c l n (x # xs)"
      "s' = put_pc (Worker w) (Encoding c l n xs) (added j x s)"
  | (resolve) c l n p where "w < length (workers s)" "wpc (workers s ! w) = Encoding c l n []"
      "\<not> flying p" "p = Capturing \<longrightarrow> Map_size (frameBuffer s) \<le> MAX_BUFFERED_FRAMES"
      "s' = put_pc (Worker w) p (resolved l n s)" "p = Yielded c"
proof -
  have w: "w < length (workers s)"
    using assms by (auto simp: worker_step_def split: if_splits)
  have quiet_pc: "\<not> flying p \<and> (p = Capturing \<longrightarrow> Map_size (frameBuffer s0) \<le> MAX_BUFFERED_FRAMES)"
    if "resume_worker c s0 fs = Some p" for c p fs and s0 :: "'p orchestration"
    using that
    by (auto simp: resume_worker_def loop_top_def wait_check_def MAX_BUFFERED_FRAMES_def
          ENCODE_BATCH_SIZE_def split: cont.splits list.splits if_splits)
  have top_pc: "\<not> flying (loop_top s0 fs)
      \<and> (loop_top s0 fs = Capturing \<longrightarrow> Map_size (frameBuffer s0) \<le> MAX_BUFFERED_FRAMES)"
    for fs and s0 :: "'p orchestration"
    by (auto simp: loop_top_def wait_check_def MAX_BUFFERED_FRAMES_def
          ENCODE_BATCH_SIZE_def split: cont.splits list.splits if_splits)
  show thesis
  proof (cases "wpc (workers s ! w)")
    case Ready
    then show ?thesis
      using assms w top_pc [of s "frames (workers s ! w)"]
      by (intro quiet [of "loop_top s (frames (workers s ! w))"])
         (auto simp: worker_step_def put_pc_def)
  next
    case Sleeping
    then show ?thesis
      using assms w
      by (cases "processEncodeQueue j InWaitLoop s")
         (auto simp: worker_step_def put_pc_def intro: drain)
  next
    case Capturing
    then obtain f rest where fr: "frames (workers s ! w) = f # rest"
      using assms w by (cases "frames (workers s ! w)") (auto simp: worker_step_def)
    then show ?thesis
      using assms w Capturing
      by (cases "processEncodeQueue j AfterInsert (stored j w f rest s)")
         (auto simp: worker_step_def put_pc_def stored_def Let_def intro: insert)
  next
    case (Encoding c l n batch)
    show ?thesis
    proof (cases batch)
      case Nil
      then have "s' = put_pc (Worker w) (Yielded c) (resolved l n s)"
        using assms w Encoding
        by (auto simp: worker_step_def put_pc_def resolved_def)
      then show ?thesis
        using w Encoding Nil by (intro resolve [of c l n "Yielded c"]) auto
    next
      case (Cons x xs)
      then show ?thesis
        using assms w Encoding
        by (intro add [of c l n x xs])
           (auto simp: worker_step_def put_pc_def added_def sent_def)
    qed
  next
    case (Yielded c)
    then obtain p where rs: "resume_worker c s (frames (workers s ! w)) = Some p"
      and s': "s' = put_pc (Worker w) p s"
      using assms w by (auto simp: worker_step_def put_pc_def split: option.splits)
    have pv: "p = (if c = InWaitLoop then wait_check s else loop_top s (frames (workers s ! w)))"
      "c \<noteq> InFinalLoop"
      using rs by (cases c; simp add: resume_worker_def)+
    then show ?thesis
      using w Yielded quiet_pc [OF rs] s' by (intro quiet [of p]) auto
  next
    case Done
    then show ?thesis using assms w by (simp add: worker_step_def)
  qed
qed


lemma main_step_cases:
  assumes "main_step j s = Some s'"
  obtains
    (quiet) p where "\<not> flying (mainpc s)" "\<not> flying p" "p \<noteq> Ready"
      "p = Done \<longrightarrow> totalFrames j \<le> encodedCount s"
      "mainpc s = Ready \<longrightarrow> list_all (\<lambda>wk. wpc wk = Done) (workers s)"
      "s' = put_pc Main p s"
      "p = Done \<or> (p = Sleeping \<and> mainpc s = Yielded InFinalLoop)"
      "mainpc s = Ready \<or> mainpc s = Sleeping \<or> mainpc s = Yielded InFinalLoop"
  | (drain) p s1 where "\<not> flying (mainpc s)"
      "mainpc s = Ready \<longrightarrow> list_all (\<lambda>wk. wpc wk = Done) (workers s)"
      "processEncodeQueue j InFinalLoop s = (p, s1)" "s' = put_pc Main p s1"
      "encodedCount s < totalFrames j" "mainpc s = Ready \<or> mainpc s = Sleeping"
  | (add) c l n x xs where "mainpc s = Encoding c l n (x # xs)"
      "s' = put_pc Main (Encoding c l n xs) (added j x s)"
  | (resolve) c l n p where "mainpc s = Encoding c l n []" "\<not> flying p" "p \<noteq> Ready"
      "p = Done \<longrightarrow> totalFrames j \<le> encodedCount s + n"
      "s' = put_pc Main p (resolved l n s)" "p = Yielded c"
proof -
  have fl: thesis
    if "\<not> flying (mainpc s)" "mainpc s = Ready \<longrightarrow> list_all (\<lambda>wk. wpc wk = Done) (workers s)"
      "s' = final_loop j s" "mainpc s = Ready \<or> mainpc s = Sleeping"
  proof (cases "encodedCount s < totalFrames j")
    case True
    then show ?thesis
      using that
      by (cases "processEncodeQueue j InFinalLoop s")
         (auto simp: final_loop_def put_pc_def intro: drain)
  next
    case False
    then show ?thesis
      using that by (intro quiet [of Done]) (auto simp: final_loop_def put_pc_def)
  qed
  have rm: "((s' = put_pc Main Sleeping s0 \<and> encodedCount s0 < totalFrames j)
            \<or> (s' = put_pc Main Done s0 \<and> \<not> encodedCount s0 < totalFrames j))
            \<and> c = InFinalLoop"
    if "resume_main j c s0 = Some s'" for c s0
    using that
    by (auto simp: resume_main_def final_loop_def put_pc_def split: cont.splits if_splits)
  show thesis
  proof (cases "mainpc s")
    case Ready
    then show ?thesis using assms by (intro fl) (auto simp: main_step_def split: if_splits)
  next
    case Sleeping
    then show ?thesis using assms by (intro fl) (auto simp: main_step_def)
  next
    case Capturing
    then show ?thesis using assms by (simp add: main_step_def)
  next
    case (Encoding c l n batch)
    show ?thesis
    proof (cases batch)
      case Nil
      then have "s' = put_pc Main (Yielded c) (resolved l n s)"
        using assms Encoding by (simp add: main_step_def resolved_def put_pc_def)
      then show ?thesis using Encoding Nil by (intro resolve [of c l n "Yielded c"]) auto
    next
      case (Cons x xs)
      then show ?thesis
        using assms Encoding
        by (intro add [of c l n x xs]) (auto simp: main_step_def put_pc_def added_def sent_def)
    qed
  next
    case (Yielded c)
    then have "resume_main j c s = Some s'"
      using assms by (simp add: main_step_def)
    from rm [OF this] have c: "c = InFinalLoop"
      and "(s' = put_pc Main Sleeping s \<and> encodedCount s < totalFrames j)
            \<or> (s' = put_pc Main Done s \<and> \<not> encodedCount s < totalFrames j)"
      by simp_all
    from this(2) show ?thesis
    proof
      assume "s' = put_pc Main Sleeping s \<and> encodedCount s < totalFrames j"
      then show ?thesis using Yielded c by (intro quiet [of Sleeping]) auto
    next
      assume "s' = put_pc Main Done s \<and> \<not> encodedCount s < totalFrames j"
      then show ?thesis using Yielded c by (intro quiet [of Done]) auto
    qed
  next
    case Done
    then show ?thesis using assms by (simp add: main_step_def)
  qed
qed

subsection \<open>Invariants of the orchestration\<close>

text \<open>
  \<open>front j s h\<close>: exactly the frames below \<open>h\<close> have left the buffer for the encoder:
  no buffered and no still-to-capture frame index is below \<open>h\<close>, every frame index of
  the job from \<open>h\<close> on is buffered or still to be captured, and \<open>h\<close> is at most the
  frame count.
\<close>

definition front :: "'p job \<Rightarrow> 'p orchestration \<Rightarrow> nat \<Rightarrow> bool" where
  "front j s h \<longleftrightarrow>
     h \<le> totalFrames j
     \<and> (\<forall>k\<in>fst ` set (frameBuffer s). h \<le> k)
     \<and> (\<forall>w<length (workers s). \<forall>f\<in>set (frames (workers s ! w)). h \<le> f)
     \<and> (\<forall>i. h \<le> i \<and> i < totalFrames j \<longrightarrow>
           i \<in> fst ` set (frameBuffer s)
           \<or> (\<exists>w<length (workers s). i \<in> set (frames (workers s ! w))))"

text \<open>
  At most one batch is with the encoder page at any time. While one is (task \<open>t\<close> is in
  \<open>Encoding c l n r\<close>), what has been added plus what the page has still to add is the
  expected output up to \<open>l\<close>, and \<open>nextEncodeFrame\<close> still points at the first frame of that
  batch. While none is, the output is the expected one up to \<open>nextEncodeFrame\<close>.
\<close>

definition inv_flight :: "'p job \<Rightarrow> 'p orchestration \<Rightarrow> bool" where
  "inv_flight j s \<longleftrightarrow>
     (\<forall>t c l n r. is_task s t \<and> pc_of s t = Encoding c l n r \<longrightarrow>
        l = nextEncodeFrame s + n \<and> 0 < n
        \<and> appended s @ map (sent j) r = expected j l
        \<and> front j s l
        \<and> (\<forall>t'. is_task s t' \<and> t' \<noteq> t \<longrightarrow> \<not> flying (pc_of s t')))
     \<and> ((\<forall>t. is_task s t \<longrightarrow> \<not> flying (pc_of s t)) \<longrightarrow>
          appended s = expected j (nextEncodeFrame s) \<and> front j s (nextEncodeFrame s))"

text \<open>
  The buffer holds only captures of frames of the job, each what its worker's surface shows
  at the frame's timestamp, and no index twice; a frame a worker has still to capture is its
  own (index \<open>mod numWorkers\<close>), is not in the buffer, and is listed once, in ascending
  order.
\<close>

definition inv_buffer :: "'p job \<Rightarrow> 'p orchestration \<Rightarrow> bool" where
  "inv_buffer j s \<longleftrightarrow>
     length (workers s) = numWorkers j
     \<and> encodedCount s = nextEncodeFrame s
     \<and> (\<forall>w<numWorkers j. \<forall>f\<in>set (frames (workers s ! w)).
           f mod numWorkers j = w \<and> f < totalFrames j \<and> f \<notin> fst ` set (frameBuffer s))
     \<and> (\<forall>w<numWorkers j. distinct (frames (workers s ! w)))
     \<and> (\<forall>e\<in>set (frameBuffer s).
           fst e < totalFrames j
           \<and> snd e = capture j (fst e mod numWorkers j) (of_nat (fst e) / fps j))
     \<and> distinct (map fst (frameBuffer s))
     \<and> (\<forall>w<numWorkers j. sorted (frames (workers s ! w)))"

definition inv_main :: "'p job \<Rightarrow> 'p orchestration \<Rightarrow> bool" where
  "inv_main j s \<longleftrightarrow>
     (mainpc s \<noteq> Ready \<longrightarrow> (\<forall>w<length (workers s). wpc (workers s ! w) = Done))
     \<and> (mainpc s = Done \<longrightarrow> totalFrames j \<le> encodedCount s)"

lemma front_put_pc [simp]: "front j (put_pc t p s) h = front j s h"
  by (simp add: front_def)

lemma front_added [simp]: "front j (added j x s) h = front j s h"
  by (simp add: front_def)

lemma front_resolved [simp]: "front j (resolved l n s) h = front j s h"
  by (simp add: front_def)

lemma front_stored:
  assumes "front j s h" and "w < length (workers s)" and "frames (workers s ! w) = f # rest"
  shows "front j (stored j w f rest s) h"
proof -
  have hf: "h \<le> f" using assms by (auto simp: front_def)
  have low: "h \<le> totalFrames j" "\<forall>k\<in>fst ` set (frameBuffer s). h \<le> k"
    "\<forall>v<length (workers s). \<forall>g\<in>set (frames (workers s ! v)). h \<le> g"
    using assms(1) by (simp_all add: front_def)
  have cov: "i \<in> fst ` set (frameBuffer s) \<or> (\<exists>v<length (workers s). i \<in> set (frames (workers s ! v)))"
    if "h \<le> i" "i < totalFrames j" for i
    using assms(1) that by (simp add: front_def)
  have cov': "i \<in> fst ` set (frameBuffer (stored j w f rest s))
      \<or> (\<exists>v<length (workers (stored j w f rest s)).
            i \<in> set (frames (workers (stored j w f rest s) ! v)))"
    if i: "h \<le> i" "i < totalFrames j" for i
  proof (cases "i = f")
    case True
    then show ?thesis by (simp add: keys_Map_set)
  next
    case False
    from cov [OF i] show ?thesis
    proof
      assume "i \<in> fst ` set (frameBuffer s)"
      then show ?thesis by (simp add: keys_Map_set)
    next
      assume "\<exists>v<length (workers s). i \<in> set (frames (workers s ! v))"
      then obtain v where v: "v < length (workers s)" "i \<in> set (frames (workers s ! v))"
        by blast
      then have "i \<in> set (frames (workers (stored j w f rest s) ! v))"
        using False assms(2,3) by (cases "v = w") (simp_all add: frames_stored)
      then show ?thesis using v(1) by auto
    qed
  qed
  have pend: "h \<le> g"
    if "v < length (workers (stored j w f rest s))"
      "g \<in> set (frames (workers (stored j w f rest s) ! v))" for v g
  proof (cases "v = w")
    case True
    then have "g \<in> set (frames (workers s ! w))" using that assms(2,3) by (simp add: frames_stored)
    then show ?thesis using low(3) assms(2) by blast
  next
    case False
    then have "g \<in> set (frames (workers s ! v))" using that assms(2) by (simp add: frames_stored)
    then show ?thesis using low(3) that(1) by simp
  qed
  have keys: "h \<le> k" if "k \<in> fst ` set (frameBuffer (stored j w f rest s))" for k
    using that low(2) hf by (auto simp: keys_Map_set)
  show ?thesis
    unfolding front_def using low(1) keys pend cov' by blast
qed

lemma inv_flight_quiet:
  assumes "inv_flight j s" and "is_task s t" and "\<not> flying (pc_of s t)" and "\<not> flying p"
  shows "inv_flight j (put_pc t p s)"
  unfolding inv_flight_def
proof (intro conjI allI impI)
  fix t0 c l n r
  assume a: "is_task (put_pc t p s) t0 \<and> pc_of (put_pc t p s) t0 = Encoding c l n r"
  then have t0: "t0 \<noteq> t" "is_task s t0" "pc_of s t0 = Encoding c l n r"
    using assms by (auto split: if_splits)
  then have old: "l = nextEncodeFrame s + n" "0 < n" "appended s @ map (sent j) r = expected j l"
    "front j s l" "\<forall>t'. is_task s t' \<and> t' \<noteq> t0 \<longrightarrow> \<not> flying (pc_of s t')"
    using assms(1) unfolding inv_flight_def by blast+
  show "l = nextEncodeFrame (put_pc t p s) + n" using old by simp
  show "0 < n" using old by simp
  show "appended (put_pc t p s) @ map (sent j) r = expected j l" using old by simp
  show "front j (put_pc t p s) l" using old by simp
  fix t' assume "is_task (put_pc t p s) t' \<and> t' \<noteq> t0"
  then show "\<not> flying (pc_of (put_pc t p s) t')"
    using old(5) assms by auto
next
  assume "\<forall>t'. is_task (put_pc t p s) t' \<longrightarrow> \<not> flying (pc_of (put_pc t p s) t')"
  then have "\<forall>t'. is_task s t' \<longrightarrow> \<not> flying (pc_of s t')"
    using assms by (auto split: if_splits)
  then have "appended s = expected j (nextEncodeFrame s) \<and> front j s (nextEncodeFrame s)"
    using assms(1) unfolding inv_flight_def by blast
  then show "appended (put_pc t p s) = expected j (nextEncodeFrame (put_pc t p s))"
    "front j (put_pc t p s) (nextEncodeFrame (put_pc t p s))"
    by simp_all
qed


text \<open>The state after a drain has taken the frames from \<open>nextEncodeFrame\<close> up to \<open>l'\<close>.\<close>

definition drained :: "nat \<Rightarrow> 'p orchestration \<Rightarrow> 'p orchestration" where
  "drained l' s =
     s\<lparr>frameBuffer := filter (\<lambda>e. \<not> (nextEncodeFrame s \<le> fst e \<and> fst e < l')) (frameBuffer s)\<rparr>"

lemma drained_simps [simp]:
  "frameBuffer (drained l' s) =
     filter (\<lambda>e. \<not> (nextEncodeFrame s \<le> fst e \<and> fst e < l')) (frameBuffer s)"
  "nextEncodeFrame (drained l' s) = nextEncodeFrame s"
  "encodedCount (drained l' s) = encodedCount s"
  "appended (drained l' s) = appended s"
  "workers (drained l' s) = workers s"
  "mainpc (drained l' s) = mainpc s"
  by (simp_all add: drained_def)

lemma is_task_drained [simp]: "is_task (drained l' s) t = is_task s t"
  by (cases t) (simp_all add: is_task_def)

lemma pc_of_drained [simp]: "pc_of (drained l' s) t = pc_of s t"
  by (cases t) (simp_all add: pc_of_def)

lemma drained_nothing: "drained (nextEncodeFrame s) s = s"
  by (simp add: drained_def)

lemma processEncodeQueue_effect:
  assumes "processEncodeQueue j c s = (p, s1)"
  obtains batch l' where
    "l' = nextEncodeFrame s + length batch" "length batch \<le> ENCODE_BATCH_SIZE"
    "batch = map (\<lambda>i. (the (map_of (frameBuffer s) i), of_nat i / fps j)) [nextEncodeFrame s..<l']"
    "\<forall>i. nextEncodeFrame s \<le> i \<and> i < l' \<longrightarrow> i \<in> fst ` set (frameBuffer s)"
    "s1 = drained l' s"
    "p = (if batch = [] then Yielded c else Encoding c l' (length batch) batch)"
    "length batch < ENCODE_BATCH_SIZE \<longrightarrow> l' \<notin> fst ` set (frameBuffer s)"
proof -
  obtain batch buf' l' where
    col: "collect (fps j) ENCODE_BATCH_SIZE (frameBuffer s) (nextEncodeFrame s) = (batch, buf', l')"
    by (cases "collect (fps j) ENCODE_BATCH_SIZE (frameBuffer s) (nextEncodeFrame s)") auto
  have sp: "l' = nextEncodeFrame s + length batch" "length batch \<le> ENCODE_BATCH_SIZE"
    "batch = map (\<lambda>i. (the (map_of (frameBuffer s) i), of_nat i / fps j)) [nextEncodeFrame s..<l']"
    "\<forall>i. nextEncodeFrame s \<le> i \<and> i < l' \<longrightarrow> i \<in> fst ` set (frameBuffer s)"
    "buf' = filter (\<lambda>e. \<not> (nextEncodeFrame s \<le> fst e \<and> fst e < l')) (frameBuffer s)"
    "length batch < ENCODE_BATCH_SIZE \<longrightarrow> l' \<notin> fst ` set (frameBuffer s)"
    using collect_spec [OF col] by blast+
  have "s1 = drained l' s"
    using assms col sp(5) by (auto simp: processEncodeQueue_def drained_def split: if_splits)
  moreover have "p = (if batch = [] then Yielded c else Encoding c l' (length batch) batch)"
    using assms col by (auto simp: processEncodeQueue_def split: if_splits)
  ultimately show thesis using sp that by blast
qed

lemma expected_split:
  "a \<le> b \<Longrightarrow> expected j b = expected j a @
     map (\<lambda>i. (capture j (i mod numWorkers j) (of_nat i / fps j), of_nat i / fps j, 1 / fps j))
       [a..<b]"
proof -
  assume "a \<le> b"
  then have "[0..<b] = [0..<a] @ [a..<b]"
    using upt_add_eq_append [of 0 a "b - a"] by simp
  then show ?thesis by (simp add: expected_def)
qed

lemma buffered_payload:
  assumes "inv_buffer j s" and "i \<in> fst ` set (frameBuffer s)"
  shows "the (map_of (frameBuffer s) i) = capture j (i mod numWorkers j) (of_nat i / fps j)"
    and "i < totalFrames j"
proof -
  obtain v where v: "map_of (frameBuffer s) i = Some v"
    using assms(2) by (metis map_of_None_iff not_Some_eq)
  then have "(i, v) \<in> set (frameBuffer s)" by (rule map_of_SomeD)
  then have "i < totalFrames j \<and> v = capture j (i mod numWorkers j) (of_nat i / fps j)"
    using assms(1) by (auto simp: inv_buffer_def)
  then show "the (map_of (frameBuffer s) i) = capture j (i mod numWorkers j) (of_nat i / fps j)"
    and "i < totalFrames j"
    using v by simp_all
qed

lemma batch_expected:
  assumes "inv_buffer j s" and "\<forall>i. a \<le> i \<and> i < b \<longrightarrow> i \<in> fst ` set (frameBuffer s)"
  shows "map (sent j) (map (\<lambda>i. (the (map_of (frameBuffer s) i), of_nat i / fps j)) [a..<b])
         = map (\<lambda>i. (capture j (i mod numWorkers j) (of_nat i / fps j), of_nat i / fps j, 1 / fps j))
             [a..<b]"
  unfolding map_map
  by (rule map_cong) (use assms in \<open>auto simp: sent_def buffered_payload(1)\<close>)

lemma front_drained:
  assumes "inv_buffer j s" and "front j s (nextEncodeFrame s)"
    and "\<forall>i. nextEncodeFrame s \<le> i \<and> i < l' \<longrightarrow> i \<in> fst ` set (frameBuffer s)"
    and "nextEncodeFrame s \<le> l'"
  shows "front j (drained l' s) l'"
  unfolding front_def
proof (intro conjI ballI allI impI)
  show "l' \<le> totalFrames j"
  proof (cases "l' = nextEncodeFrame s")
    case True
    then show ?thesis using assms(2) by (simp add: front_def)
  next
    case False
    then have "l' - 1 \<in> fst ` set (frameBuffer s)" using assms(3,4) by simp
    then have "l' - 1 < totalFrames j" using assms(1) buffered_payload(2) by blast
    then show ?thesis by simp
  qed
next
  fix k assume "k \<in> fst ` set (frameBuffer (drained l' s))"
  then have "k \<in> fst ` set (frameBuffer s)" "\<not> (nextEncodeFrame s \<le> k \<and> k < l')"
    by auto
  moreover from this have "nextEncodeFrame s \<le> k" using assms(2) by (auto simp: front_def)
  ultimately show "l' \<le> k" by simp
next
  fix w f assume w: "w < length (workers (drained l' s))"
    and f: "f \<in> set (frames (workers (drained l' s) ! w))"
  then have "nextEncodeFrame s \<le> f" using assms(2) by (simp add: front_def)
  moreover have "f \<notin> fst ` set (frameBuffer s)"
    using assms(1) w f by (simp add: inv_buffer_def)
  ultimately show "l' \<le> f" using assms(3) by (metis not_le_imp_less)
next
  fix i assume i: "l' \<le> i \<and> i < totalFrames j"
  then have "nextEncodeFrame s \<le> i" using assms(4) by simp
  then have "i \<in> fst ` set (frameBuffer s)
      \<or> (\<exists>w<length (workers s). i \<in> set (frames (workers s ! w)))"
    using assms(2) i by (simp add: front_def)
  then show "i \<in> fst ` set (frameBuffer (drained l' s))
      \<or> (\<exists>w<length (workers (drained l' s)). i \<in> set (frames (workers (drained l' s) ! w)))"
    using i by auto
qed


lemma inv_flight_drain:
  assumes fl: "inv_flight j s" and bf: "inv_buffer j s" and t: "is_task s t"
    and nf: "\<not> flying (pc_of s t)" and pq: "processEncodeQueue j c s = (p, s1)"
  shows "inv_flight j (put_pc t p s1)"
proof -
  from pq obtain batch l' where
    l': "l' = nextEncodeFrame s + length batch"
    and "length batch \<le> ENCODE_BATCH_SIZE"
    and batch: "batch = map (\<lambda>i. (the (map_of (frameBuffer s) i), of_nat i / fps j))
                          [nextEncodeFrame s..<l']"
    and keys: "\<forall>i. nextEncodeFrame s \<le> i \<and> i < l' \<longrightarrow> i \<in> fst ` set (frameBuffer s)"
    and s1: "s1 = drained l' s"
    and p: "p = (if batch = [] then Yielded c else Encoding c l' (length batch) batch)"
    by (rule processEncodeQueue_effect)
  show ?thesis
  proof (cases "batch = []")
    case True
    then have "s1 = s" "p = Yielded c"
      using l' s1 p by (simp_all add: drained_nothing)
    then show ?thesis using inv_flight_quiet [OF fl t nf, of "Yielded c"] by simp
  next
    case False
    then have pe: "p = Encoding c l' (length batch) batch" and pos: "0 < length batch"
      using p by simp_all
    have head: "nextEncodeFrame s \<in> fst ` set (frameBuffer s)"
      using keys l' pos by simp
    have idle: "\<forall>t'. is_task s t' \<longrightarrow> \<not> flying (pc_of s t')"
    proof (intro allI impI notI)
      fix t' assume t': "is_task s t'" and "flying (pc_of s t')"
      then obtain c0 l0 n0 r0 where e: "pc_of s t' = Encoding c0 l0 n0 r0"
        by (cases "pc_of s t'") auto
      then have "l0 = nextEncodeFrame s + n0" "0 < n0" "front j s l0"
        using fl t' unfolding inv_flight_def by blast+
      then show False using head by (auto simp: front_def)
    qed
    then have ap: "appended s = expected j (nextEncodeFrame s)"
      and fr: "front j s (nextEncodeFrame s)"
      using fl unfolding inv_flight_def by blast+
    have out: "appended s @ map (sent j) batch = expected j l'"
      using ap batch batch_expected [OF bf keys] expected_split [of "nextEncodeFrame s" l' j] l'
      by simp
    have fr': "front j (drained l' s) l'"
      using front_drained [OF bf fr keys] l' by simp
    show ?thesis
      unfolding inv_flight_def
    proof (intro conjI allI impI)
      fix t0 c0 l0 n0 r0
      assume a: "is_task (put_pc t p s1) t0 \<and> pc_of (put_pc t p s1) t0 = Encoding c0 l0 n0 r0"
      have "t0 = t"
      proof (rule ccontr)
        assume "t0 \<noteq> t"
        then have "pc_of s t0 = Encoding c0 l0 n0 r0" "is_task s t0"
          using a t s1 by simp_all
        then show False using idle by fastforce
      qed
      then have "Encoding c0 l0 n0 r0 = Encoding c l' (length batch) batch"
        using a t s1 pe by auto
      then have eq: "c0 = c" "l0 = l'" "n0 = length batch" "r0 = batch"
        by simp_all
      show "l0 = nextEncodeFrame (put_pc t p s1) + n0" using eq l' s1 by simp
      show "0 < n0" using eq pos by simp
      show "appended (put_pc t p s1) @ map (sent j) r0 = expected j l0"
        using eq out s1 by simp
      show "front j (put_pc t p s1) l0" using eq fr' s1 by simp
      fix t' assume "is_task (put_pc t p s1) t' \<and> t' \<noteq> t0"
      then show "\<not> flying (pc_of (put_pc t p s1) t')"
        using idle t s1 \<open>t0 = t\<close> by simp
    next
      assume "\<forall>t'. is_task (put_pc t p s1) t' \<longrightarrow> \<not> flying (pc_of (put_pc t p s1) t')"
      then have "is_task (put_pc t p s1) t \<longrightarrow> \<not> flying (pc_of (put_pc t p s1) t)"
        by (rule spec)
      then have "\<not> flying (pc_of (put_pc t p s1) t)" using t s1 by simp
      then have False using t s1 pe by simp
      then show "appended (put_pc t p s1) = expected j (nextEncodeFrame (put_pc t p s1))"
        and "front j (put_pc t p s1) (nextEncodeFrame (put_pc t p s1))"
        by simp_all
    qed
  qed
qed

lemma inv_flight_stored:
  assumes "inv_flight j s" and "w < length (workers s)" and "frames (workers s ! w) = f # rest"
  shows "inv_flight j (stored j w f rest s)"
  using assms(1) front_stored [OF _ assms(2,3)]
  unfolding inv_flight_def by simp

lemma inv_flight_add:
  assumes fl: "inv_flight j s" and t: "is_task s t"
    and e: "pc_of s t = Encoding c l n (x # xs)"
  shows "inv_flight j (put_pc t (Encoding c l n xs) (added j x s))"
proof -
  have old: "l = nextEncodeFrame s + n" "0 < n"
    "appended s @ map (sent j) (x # xs) = expected j l" "front j s l"
    "\<forall>t'. is_task s t' \<and> t' \<noteq> t \<longrightarrow> \<not> flying (pc_of s t')"
    using fl t e unfolding inv_flight_def by blast+
  show ?thesis
    unfolding inv_flight_def
  proof (intro conjI allI impI)
    fix t0 c0 l0 n0 r0
    assume a: "is_task (put_pc t (Encoding c l n xs) (added j x s)) t0
        \<and> pc_of (put_pc t (Encoding c l n xs) (added j x s)) t0 = Encoding c0 l0 n0 r0"
    have "t0 = t"
    proof (rule ccontr)
      assume "t0 \<noteq> t"
      then have "pc_of s t0 = Encoding c0 l0 n0 r0" "is_task s t0" using a t by simp_all
      then show False using old(5) \<open>t0 \<noteq> t\<close> by fastforce
    qed
    then have eq: "c0 = c" "l0 = l" "n0 = n" "r0 = xs" using a t by simp_all
    show "l0 = nextEncodeFrame (put_pc t (Encoding c l n xs) (added j x s)) + n0"
      using eq old by simp
    show "0 < n0" using eq old by simp
    show "appended (put_pc t (Encoding c l n xs) (added j x s)) @ map (sent j) r0 = expected j l0"
      using eq old by simp
    show "front j (put_pc t (Encoding c l n xs) (added j x s)) l0" using eq old by simp
    fix t' assume "is_task (put_pc t (Encoding c l n xs) (added j x s)) t' \<and> t' \<noteq> t0"
    then show "\<not> flying (pc_of (put_pc t (Encoding c l n xs) (added j x s)) t')"
      using old(5) t \<open>t0 = t\<close> by simp
  next
    assume "\<forall>t'. is_task (put_pc t (Encoding c l n xs) (added j x s)) t'
              \<longrightarrow> \<not> flying (pc_of (put_pc t (Encoding c l n xs) (added j x s)) t')"
    then have "is_task (put_pc t (Encoding c l n xs) (added j x s)) t
        \<longrightarrow> \<not> flying (pc_of (put_pc t (Encoding c l n xs) (added j x s)) t)"
      by (rule spec)
    then have "\<not> flying (pc_of (put_pc t (Encoding c l n xs) (added j x s)) t)"
      using t by simp
    then have False using t by simp
    then show "appended (put_pc t (Encoding c l n xs) (added j x s))
                 = expected j (nextEncodeFrame (put_pc t (Encoding c l n xs) (added j x s)))"
      and "front j (put_pc t (Encoding c l n xs) (added j x s))
             (nextEncodeFrame (put_pc t (Encoding c l n xs) (added j x s)))"
      by simp_all
  qed
qed

lemma inv_flight_resolve:
  assumes fl: "inv_flight j s" and t: "is_task s t"
    and e: "pc_of s t = Encoding c l n []" and p: "\<not> flying p"
  shows "inv_flight j (put_pc t p (resolved l n s))"
proof -
  have old: "appended s = expected j l" "front j s l"
    "\<forall>t'. is_task s t' \<and> t' \<noteq> t \<longrightarrow> \<not> flying (pc_of s t')"
    using fl t e unfolding inv_flight_def by fastforce+
  have none: "\<not> flying (pc_of (put_pc t p (resolved l n s)) t')"
    if "is_task s t'" for t'
    using that old(3) t p by simp
  show ?thesis
    unfolding inv_flight_def
  proof (intro conjI allI impI)
    fix t0 c0 l0 n0 r0
    assume a: "is_task (put_pc t p (resolved l n s)) t0
        \<and> pc_of (put_pc t p (resolved l n s)) t0 = Encoding c0 l0 n0 r0"
    then have "flying (pc_of (put_pc t p (resolved l n s)) t0)" "is_task s t0" by simp_all
    then have False using none by blast
    then show "l0 = nextEncodeFrame (put_pc t p (resolved l n s)) + n0" "0 < n0"
      "appended (put_pc t p (resolved l n s)) @ map (sent j) r0 = expected j l0"
      "front j (put_pc t p (resolved l n s)) l0"
      "\<And>t'. is_task (put_pc t p (resolved l n s)) t' \<and> t' \<noteq> t0
           \<Longrightarrow> \<not> flying (pc_of (put_pc t p (resolved l n s)) t')"
      by simp_all
  next
    show "appended (put_pc t p (resolved l n s))
            = expected j (nextEncodeFrame (put_pc t p (resolved l n s)))"
      "front j (put_pc t p (resolved l n s)) (nextEncodeFrame (put_pc t p (resolved l n s)))"
      using old by simp_all
  qed
qed


lemma inv_buffer_put_pc [simp]: "inv_buffer j (put_pc t p s) = inv_buffer j s"
  by (simp add: inv_buffer_def)

lemma inv_buffer_added [simp]: "inv_buffer j (added j x s) = inv_buffer j s"
  by (simp add: inv_buffer_def)

lemma inv_buffer_drained: "inv_buffer j s \<Longrightarrow> inv_buffer j (drained l' s)"
  by (auto simp: inv_buffer_def distinct_map_filter)

lemma inv_buffer_resolved:
  "inv_buffer j s \<Longrightarrow> l = nextEncodeFrame s + n \<Longrightarrow> inv_buffer j (resolved l n s)"
  by (simp add: inv_buffer_def)

lemma inv_buffer_stored:
  assumes bf: "inv_buffer j s" and w: "w < numWorkers j"
    and fr: "frames (workers s ! w) = f # rest"
  shows "inv_buffer j (stored j w f rest s)"
proof -
  have len: "length (workers s) = numWorkers j" using bf by (simp add: inv_buffer_def)
  have wl: "w < length (workers s)" using w len by simp
  have own: "\<And>v g. v < numWorkers j \<Longrightarrow> g \<in> set (frames (workers s ! v)) \<Longrightarrow>
      g mod numWorkers j = v \<and> g < totalFrames j \<and> g \<notin> fst ` set (frameBuffer s)"
    using bf by (simp add: inv_buffer_def)
  have dist: "\<And>v. v < numWorkers j \<Longrightarrow> distinct (frames (workers s ! v))"
    using bf by (simp add: inv_buffer_def)
  have f: "f mod numWorkers j = w" "f < totalFrames j" "f \<notin> set rest"
    using own [OF w, of f] dist [OF w] fr by simp_all
  have pend: "g mod numWorkers j = v \<and> g < totalFrames j
      \<and> g \<notin> fst ` set (frameBuffer (stored j w f rest s))"
    if v: "v < numWorkers j" and g: "g \<in> set (frames (workers (stored j w f rest s) ! v))"
    for v g
  proof (cases "v = w")
    case True
    then have "g \<in> set rest" using g wl by (simp add: frames_stored)
    then have "g \<in> set (frames (workers s ! w))" "g \<noteq> f" using fr f by auto
    then show ?thesis using own [OF w, of g] True by (simp add: keys_Map_set)
  next
    case False
    then have "g \<in> set (frames (workers s ! v))" using g wl by (simp add: frames_stored)
    then have o: "g mod numWorkers j = v \<and> g < totalFrames j \<and> g \<notin> fst ` set (frameBuffer s)"
      using own [OF v] by simp
    then have "g \<noteq> f" using f False by auto
    then show ?thesis using o by (simp add: keys_Map_set)
  qed
  have dist': "distinct (frames (workers (stored j w f rest s) ! v))" if "v < numWorkers j" for v
    using dist [OF that] dist [OF w] fr wl by (simp add: frames_stored)
  have cont: "fst e < totalFrames j
      \<and> snd e = capture j (fst e mod numWorkers j) (of_nat (fst e) / fps j)"
    if "e \<in> set (frameBuffer (stored j w f rest s))" for e
  proof -
    have "e = (f, capture j w (of_nat f / fps j)) \<or> e \<in> set (frameBuffer s)"
      using that set_Map_set_subset [of "frameBuffer s" f "capture j w (of_nat f / fps j)"]
      by auto
    then show ?thesis using f bf by (auto simp: inv_buffer_def)
  qed
  have "distinct (map fst (frameBuffer s))" using bf by (simp add: inv_buffer_def)
  then have keys: "distinct (map fst (frameBuffer (stored j w f rest s)))"
    by (simp add: distinct_Map_set)
  have asc: "\<And>v. v < numWorkers j \<Longrightarrow> sorted (frames (workers s ! v))"
    using bf by (simp add: inv_buffer_def)
  have asc': "sorted (frames (workers (stored j w f rest s) ! v))" if "v < numWorkers j" for v
    using asc [OF that] asc [OF w] fr wl by (simp add: frames_stored)
  show ?thesis
    unfolding inv_buffer_def
    using len bf pend dist' cont keys asc' by (simp add: inv_buffer_def)
qed

definition invariant :: "'p job \<Rightarrow> 'p orchestration \<Rightarrow> bool" where
  "invariant j s \<longleftrightarrow> inv_flight j s \<and> inv_buffer j s \<and> inv_main j s"

lemma inv_main_worker_turn:
  assumes "inv_main j s" and "w < length (workers s)" and "wpc (workers s ! w) \<noteq> Done"
    and "mainpc s' = mainpc s"
  shows "inv_main j s'"
proof -
  have "mainpc s = Ready" using assms(1-3) by (auto simp: inv_main_def)
  then show ?thesis using assms(4) by (simp add: inv_main_def)
qed

lemma worker_step_invariant:
  assumes inv: "invariant j s" and st: "worker_step j w s = Some s'"
  shows "invariant j s'"
proof -
  have fl: "inv_flight j s" and bf: "inv_buffer j s" and mn: "inv_main j s"
    using inv by (simp_all add: invariant_def)
  have len: "length (workers s) = numWorkers j" using bf by (simp add: inv_buffer_def)
  from st show ?thesis
  proof (cases rule: worker_step_cases)
    case (quiet p)
    have t: "is_task s (Worker w)" "\<not> flying (pc_of s (Worker w))"
      "wpc (workers s ! w) \<noteq> Done"
      using quiet(1,2) by (auto simp: is_task_def pc_of_def)
    have "inv_flight j s'" using inv_flight_quiet [OF fl t(1,2) quiet(3)] quiet(5) by simp
    moreover have "inv_buffer j s'" using bf quiet(5) by simp
    moreover have "inv_main j s'"
      using inv_main_worker_turn [OF mn quiet(1) t(3)] quiet(5) by simp
    ultimately show ?thesis by (simp add: invariant_def)
  next
    case (drain p s1)
    have t: "is_task s (Worker w)" "\<not> flying (pc_of s (Worker w))"
      "wpc (workers s ! w) \<noteq> Done"
      using drain(1,2) by (auto simp: is_task_def pc_of_def)
    from drain(3) obtain batch l' where s1: "s1 = drained l' s"
      by (rule processEncodeQueue_effect)
    have "inv_flight j s'" using inv_flight_drain [OF fl bf t(1,2) drain(3)] drain(4) by simp
    moreover have "inv_buffer j s'" using inv_buffer_drained [OF bf] s1 drain(4) by simp
    moreover have "inv_main j s'"
      using inv_main_worker_turn [OF mn drain(1) t(3)] s1 drain(4) by simp
    ultimately show ?thesis by (simp add: invariant_def)
  next
    case (insert f rest p s2)
    let ?s1 = "stored j w f rest s"
    have w: "w < numWorkers j" using insert(1) len by simp
    have t: "is_task ?s1 (Worker w)" "\<not> flying (pc_of ?s1 (Worker w))"
      "wpc (workers s ! w) \<noteq> Done"
      using insert(1,2) by (auto simp: is_task_def pc_of_def wpc_stored)
    have fl1: "inv_flight j ?s1" using inv_flight_stored [OF fl insert(1,3)] .
    have bf1: "inv_buffer j ?s1" using inv_buffer_stored [OF bf w insert(3)] .
    from insert(4) obtain batch l' where s2: "s2 = drained l' ?s1"
      by (rule processEncodeQueue_effect)
    have "inv_flight j s'" using inv_flight_drain [OF fl1 bf1 t(1,2) insert(4)] insert(5) by simp
    moreover have "inv_buffer j s'" using inv_buffer_drained [OF bf1] s2 insert(5) by simp
    moreover have "inv_main j s'"
      using inv_main_worker_turn [OF mn insert(1) t(3)] s2 insert(5) by simp
    ultimately show ?thesis by (simp add: invariant_def)
  next
    case (add c l n x xs)
    have t: "is_task s (Worker w)" "pc_of s (Worker w) = Encoding c l n (x # xs)"
      "wpc (workers s ! w) \<noteq> Done"
      using add(1,2) by (auto simp: is_task_def pc_of_def)
    have "inv_flight j s'" using inv_flight_add [OF fl t(1,2)] add(3) by simp
    moreover have "inv_buffer j s'" using bf add(3) by simp
    moreover have "inv_main j s'"
      using inv_main_worker_turn [OF mn add(1) t(3)] add(3) by simp
    ultimately show ?thesis by (simp add: invariant_def)
  next
    case (resolve c l n p)
    have t: "is_task s (Worker w)" "pc_of s (Worker w) = Encoding c l n []"
      "wpc (workers s ! w) \<noteq> Done"
      using resolve(1,2) by (auto simp: is_task_def pc_of_def)
    have l: "l = nextEncodeFrame s + n"
      using fl t(1,2) unfolding inv_flight_def by blast
    have "inv_flight j s'" using inv_flight_resolve [OF fl t(1,2) resolve(3)] resolve(5) by simp
    moreover have "inv_buffer j s'" using inv_buffer_resolved [OF bf l] resolve(5) by simp
    moreover have "inv_main j s'"
      using inv_main_worker_turn [OF mn resolve(1) t(3)] resolve(5) by simp
    ultimately show ?thesis by (simp add: invariant_def)
  qed
qed

lemma main_step_invariant:
  assumes inv: "invariant j s" and st: "main_step j s = Some s'"
  shows "invariant j s'"
proof -
  have fl: "inv_flight j s" and bf: "inv_buffer j s" and mn: "inv_main j s"
    using inv by (simp_all add: invariant_def)
  have t: "is_task s Main" by (simp add: is_task_def)
  have pc: "pc_of s Main = mainpc s" by (simp add: pc_of_def)
  have alld: "\<forall>w<length (workers s). wpc (workers s ! w) = Done"
    if "mainpc s = Ready \<longrightarrow> list_all (\<lambda>wk. wpc wk = Done) (workers s)"
    using that mn by (cases "mainpc s = Ready") (auto simp: inv_main_def list_all_length)
  from st show ?thesis
  proof (cases rule: main_step_cases)
    case (quiet p)
    have "inv_flight j s'" using inv_flight_quiet [OF fl t _ quiet(2)] quiet(1,6) pc by simp
    moreover have "inv_buffer j s'" using bf quiet(6) by simp
    moreover have "inv_main j s'"
      using alld [OF quiet(5)] quiet(4,6) by (simp add: inv_main_def put_pc_def)
    ultimately show ?thesis by (simp add: invariant_def)
  next
    case (drain p s1)
    from drain(3) obtain batch l' where s1: "s1 = drained l' s"
      and p: "p = (if batch = [] then Yielded InFinalLoop
                   else Encoding InFinalLoop l' (length batch) batch)"
      by (rule processEncodeQueue_effect)
    have "inv_flight j s'" using inv_flight_drain [OF fl bf t _ drain(3)] drain(1,4) pc by simp
    moreover have "inv_buffer j s'" using inv_buffer_drained [OF bf] s1 drain(4) by simp
    moreover have "inv_main j s'"
      using alld [OF drain(2)] s1 p drain(4) by (simp add: inv_main_def put_pc_def)
    ultimately show ?thesis by (simp add: invariant_def)
  next
    case (add c l n x xs)
    have "inv_flight j s'" using inv_flight_add [OF fl t] add pc by simp
    moreover have "inv_buffer j s'" using bf add(2) by simp
    moreover have "inv_main j s'"
      using mn add by (simp add: inv_main_def put_pc_def)
    ultimately show ?thesis by (simp add: invariant_def)
  next
    case (resolve c l n p)
    have e: "pc_of s Main = Encoding c l n []" using resolve(1) pc by simp
    have l: "l = nextEncodeFrame s + n"
      using fl t e unfolding inv_flight_def by blast
    have "inv_flight j s'" using inv_flight_resolve [OF fl t e resolve(2)] resolve(5) by simp
    moreover have "inv_buffer j s'" using inv_buffer_resolved [OF bf l] resolve(5) by simp
    moreover have "inv_main j s'"
      using mn resolve by (simp add: inv_main_def put_pc_def)
    ultimately show ?thesis by (simp add: invariant_def)
  qed
qed

lemma step_invariant: "invariant j s \<Longrightarrow> step j t s = Some s' \<Longrightarrow> invariant j s'"
  by (cases t) (auto simp: step_def intro: worker_step_invariant main_step_invariant)

lemma run_invariant: "invariant j s \<Longrightarrow> run j sched s = Some s' \<Longrightarrow> invariant j s'"
proof (induction sched arbitrary: s)
  case Nil
  then show ?case by simp
next
  case (Cons t sched)
  then obtain s1 where "step j t s = Some s1" "run j sched s1 = Some s'"
    by (auto split: option.splits)
  then show ?case using Cons.IH step_invariant [OF Cons.prems(1)] by blast
qed


lemma frameAssignments_rows:
  assumes "frameAssignments W N = Inr fa"
  shows "fa = map (assigned W N) [0..<W]"
proof (cases "W = 0")
  case True
  then show ?thesis
    using assms by (cases "[0..<N]") (simp_all add: frameAssignments_def)
next
  case False
  then show ?thesis using assms frameAssignments_eq [of W N] by simp
qed

lemma start_state:
  assumes "start j = Inr s0"
  shows "s0 = \<lparr>frameBuffer = [], nextEncodeFrame = 0, encodedCount = 0,
               workers = map (\<lambda>w. \<lparr>frames = assigned (numWorkers j) (totalFrames j) w,
                                  wpc = Ready\<rparr>) [0..<numWorkers j],
               mainpc = Ready, appended = []\<rparr>"
proof -
  obtain fa where fa: "frameAssignments (numWorkers j) (totalFrames j) = Inr fa"
    and s0: "s0 = \<lparr>frameBuffer = [], nextEncodeFrame = 0, encodedCount = 0,
               workers = map (\<lambda>fs. \<lparr>frames = fs, wpc = Ready\<rparr>) fa,
               mainpc = Ready, appended = []\<rparr>"
    using assms by (auto simp: start_def split: sum.splits)
  show ?thesis
    unfolding s0 frameAssignments_rows [OF fa] by (simp add: comp_def)
qed

lemma start_invariant:
  assumes "start j = Inr s0"
  shows "invariant j s0"
proof -
  note s0 = start_state [OF assms]
  have idle: "\<not> flying (pc_of s0 t)" if "is_task s0 t" for t
    using that by (cases t) (simp_all add: s0 pc_of_def is_task_def)
  have "inv_flight j s0"
    unfolding inv_flight_def
  proof (intro conjI allI impI)
    fix t c l n r
    assume "is_task s0 t \<and> pc_of s0 t = Encoding c l n r"
    then have "flying (pc_of s0 t)" "is_task s0 t" by simp_all
    then have False using idle by blast
    then show "l = nextEncodeFrame s0 + n" "0 < n"
      "appended s0 @ map (sent j) r = expected j l" "front j s0 l"
      "\<And>t'. is_task s0 t' \<and> t' \<noteq> t \<Longrightarrow> \<not> flying (pc_of s0 t')"
      by simp_all
  next
    show "appended s0 = expected j (nextEncodeFrame s0)" by (simp add: s0 expected_def)
    have "totalFrames j = 0 \<or> 0 < numWorkers j"
    proof (rule ccontr)
      assume "\<not> (totalFrames j = 0 \<or> 0 < numWorkers j)"
      then have "start j = Inl TypeError"
        by (simp add: start_def frameAssignments_def upt_conv_Cons)
      then show False using assms by simp
    qed
    then have "\<exists>w<length (workers s0). i \<in> set (frames (workers s0 ! w))"
      if "i < totalFrames j" for i
      using that by (intro exI [of _ "i mod numWorkers j"]) (auto simp: s0 assigned_def)
    then show "front j s0 (nextEncodeFrame s0)"
      unfolding front_def by (simp add: s0)
  qed
  moreover have "inv_buffer j s0"
    by (simp add: inv_buffer_def s0 assigned_def sorted_wrt_filter)
  moreover have "inv_main j s0"
    by (simp add: inv_main_def s0)
  ultimately show ?thesis by (simp add: invariant_def)
qed

lemma reachable_invariant:
  "start j = Inr s0 \<Longrightarrow> run j sched s0 = Some s \<Longrightarrow> invariant j s"
  using run_invariant start_invariant by blast

lemma length_expected [simp]: "length (expected j n) = n"
  by (simp add: expected_def)

lemma take_expected: "k \<le> l \<Longrightarrow> take k (expected j l) = expected j k"
  by (simp add: expected_def take_map)

lemma output_prefix:
  assumes "invariant j s"
  shows "appended s = expected j (length (appended s)) \<and> length (appended s) \<le> totalFrames j"
proof (cases "\<exists>t. is_task s t \<and> flying (pc_of s t)")
  case True
  then obtain t c l n r where t: "is_task s t" "pc_of s t = Encoding c l n r"
    by (metis flying.elims(2))
  then have e: "appended s @ map (sent j) r = expected j l" and "front j s l"
    using assms unfolding invariant_def inv_flight_def by blast+
  then have l: "l \<le> totalFrames j" by (simp add: front_def)
  have "length (appended s) + length r = l"
    using arg_cong [OF e, of length] by simp
  then have k: "length (appended s) \<le> l" by simp
  have "appended s = take (length (appended s)) (appended s @ map (sent j) r)" by simp
  also have "\<dots> = expected j (length (appended s))"
    unfolding e by (rule take_expected [OF k])
  finally show ?thesis using k l by simp
next
  case False
  then have "appended s = expected j (nextEncodeFrame s)" "front j s (nextEncodeFrame s)"
    using assms unfolding invariant_def inv_flight_def by blast+
  then show ?thesis by (simp add: front_def)
qed

lemma output_finished:
  assumes "invariant j s" and "mainpc s = Done"
  shows "appended s = expected j (totalFrames j)"
proof -
  have mn: "\<forall>w<length (workers s). wpc (workers s ! w) = Done"
    "totalFrames j \<le> encodedCount s"
    using assms by (simp_all add: invariant_def inv_main_def)
  have "\<not> flying (pc_of s t)" if "is_task s t" for t
    using that mn(1) assms(2) by (cases t) (simp_all add: pc_of_def is_task_def)
  then have "appended s = expected j (nextEncodeFrame s)" "front j s (nextEncodeFrame s)"
    using assms(1) unfolding invariant_def inv_flight_def by blast+
  moreover have "encodedCount s = nextEncodeFrame s"
    using assms(1) by (simp add: invariant_def inv_buffer_def)
  ultimately show ?thesis using mn(2) by (simp add: front_def)
qed

subsection \<open>Occupancy of the buffer\<close>

definition capturing :: "'p orchestration \<Rightarrow> nat" where
  "capturing s = length (filter (\<lambda>p. p = Capturing) (map wpc (workers s)))"

definition inv_occupancy :: "'p orchestration \<Rightarrow> bool" where
  "inv_occupancy s \<longleftrightarrow>
     Map_size (frameBuffer s) + capturing s \<le> MAX_BUFFERED_FRAMES + length (workers s)"

lemma count_update:
  "i < length xs \<Longrightarrow>
     length (filter P (xs[i := y])) + (if P (xs ! i) then 1 else 0)
       = length (filter P xs) + (if P y then 1 else 0)"
proof (induction xs arbitrary: i)
  case Nil
  then show ?case by simp
next
  case (Cons x xs)
  then show ?case by (cases i) auto
qed

lemma count_room: "i < length xs \<Longrightarrow> \<not> P (xs ! i) \<Longrightarrow> length (filter P xs) < length xs"
  by (metis length_filter_less nth_mem)

lemma capturing_put_pc_worker:
  assumes "w < length (workers s)"
  shows "capturing (put_pc (Worker w) p s) + (if wpc (workers s ! w) = Capturing then 1 else 0)
         = capturing s + (if p = Capturing then 1 else 0)"
proof -
  have "map wpc (workers (put_pc (Worker w) p s)) = (map wpc (workers s))[w := p]"
    by (simp add: put_pc_def set_pc_def map_update)
  then show ?thesis
    using count_update [of w "map wpc (workers s)" "\<lambda>p. p = Capturing" p] assms
    by (simp add: capturing_def)
qed

lemma capturing_room:
  "w < length (workers s) \<Longrightarrow> wpc (workers s ! w) \<noteq> Capturing \<Longrightarrow> capturing s < length (workers s)"
  using count_room [of w "map wpc (workers s)" "\<lambda>p. p = Capturing"]
  by (simp add: capturing_def)

lemma capturing_simps [simp]:
  "capturing (put_pc Main p s) = capturing s"
  "capturing (stored j w f rest s) = capturing s"
  "capturing (drained l' s) = capturing s"
  "capturing (added j x s) = capturing s"
  "capturing (resolved l n s) = capturing s"
proof -
  have "map wpc (workers (stored j w f rest s)) = map wpc (workers s)"
    by (rule nth_equalityI) (simp_all add: wpc_stored)
  then show "capturing (stored j w f rest s) = capturing s" by (simp add: capturing_def)
qed (simp_all add: capturing_def)


lemma size_drained: "Map_size (frameBuffer (drained l' s)) \<le> Map_size (frameBuffer s)"
  by (simp add: Map_size_def)

lemma size_stored: "Map_size (frameBuffer (stored j w f rest s)) \<le> Suc (Map_size (frameBuffer s))"
  by (simp add: Map_size_def length_Map_set_le)

lemma worker_step_occupancy:
  assumes oc: "inv_occupancy s" and st: "worker_step j w s = Some s'"
  shows "inv_occupancy s'"
  using st
proof (cases rule: worker_step_cases)
  case (quiet p)
  have nc: "wpc (workers s ! w) \<noteq> Capturing" using quiet(2) by auto
  have c: "capturing s' = capturing s + (if p = Capturing then 1 else 0)"
    using capturing_put_pc_worker [OF quiet(1), of p] nc quiet(5) by simp
  show ?thesis
  proof (cases "p = Capturing")
    case True
    then show ?thesis
      using c quiet(4,5) capturing_room [OF quiet(1) nc] by (simp add: inv_occupancy_def)
  next
    case False
    then show ?thesis using c oc quiet(5) by (simp add: inv_occupancy_def)
  qed
next
  case (drain p s1)
  from drain(3) obtain batch l' where s1: "s1 = drained l' s"
    and p: "p = (if batch = [] then Yielded InWaitLoop
                 else Encoding InWaitLoop l' (length batch) batch)"
    by (rule processEncodeQueue_effect)
  have "capturing s' = capturing s"
    using capturing_put_pc_worker [of w s1 p] drain(1,2,4) s1 p by (simp split: if_splits)
  then show ?thesis
    using oc size_drained [of l' s] drain(4) s1 by (simp add: inv_occupancy_def)
next
  case (insert f rest p s2)
  let ?s1 = "stored j w f rest s"
  from insert(4) obtain batch l' where s2: "s2 = drained l' ?s1"
    and p: "p = (if batch = [] then Yielded AfterInsert
                 else Encoding AfterInsert l' (length batch) batch)"
    by (rule processEncodeQueue_effect)
  have "capturing s' + 1 = capturing s"
    using capturing_put_pc_worker [of w s2 p] insert(1,2,5) s2 p
    by (simp add: wpc_stored split: if_splits)
  moreover have "Map_size (frameBuffer s') \<le> Suc (Map_size (frameBuffer s))"
    using size_drained [of l' ?s1] size_stored [of j w f rest s] insert(5) s2 by simp
  ultimately show ?thesis
    using oc insert(5) s2 by (simp add: inv_occupancy_def)
next
  case (add c l n x xs)
  have "capturing s' = capturing s"
    using capturing_put_pc_worker [of w "added j x s" "Encoding c l n xs"] add by simp
  then show ?thesis using oc add(3) by (simp add: inv_occupancy_def)
next
  case (resolve c l n p)
  have nc: "wpc (workers s ! w) \<noteq> Capturing" using resolve(2) by auto
  have c: "capturing s' = capturing s + (if p = Capturing then 1 else 0)"
    using capturing_put_pc_worker [of w "resolved l n s" p] resolve(1,2,5) by simp
  show ?thesis
  proof (cases "p = Capturing")
    case True
    then show ?thesis
      using c resolve(4,5) capturing_room [OF resolve(1) nc] by (simp add: inv_occupancy_def)
  next
    case False
    then show ?thesis using c oc resolve(5) by (simp add: inv_occupancy_def)
  qed
qed

lemma main_step_occupancy:
  assumes oc: "inv_occupancy s" and st: "main_step j s = Some s'"
  shows "inv_occupancy s'"
  using st
proof (cases rule: main_step_cases)
  case (quiet p)
  then show ?thesis using oc by (simp add: inv_occupancy_def)
next
  case (drain p s1)
  from drain(3) obtain batch l' where s1: "s1 = drained l' s"
    by (rule processEncodeQueue_effect)
  then show ?thesis
    using oc size_drained [of l' s] drain(4) by (simp add: inv_occupancy_def)
next
  case (add c l n x xs)
  then show ?thesis using oc by (simp add: inv_occupancy_def)
next
  case (resolve c l n p)
  then show ?thesis using oc by (simp add: inv_occupancy_def)
qed

lemma run_occupancy: "inv_occupancy s \<Longrightarrow> run j sched s = Some s' \<Longrightarrow> inv_occupancy s'"
proof (induction sched arbitrary: s)
  case Nil
  then show ?case by simp
next
  case (Cons t sched)
  then obtain s1 where s1: "step j t s = Some s1" "run j sched s1 = Some s'"
    by (auto split: option.splits)
  have "inv_occupancy s1"
    using s1(1) Cons.prems(1)
    by (cases t) (auto simp: step_def intro: worker_step_occupancy main_step_occupancy)
  then show ?case using Cons.IH s1(2) by blast
qed

lemma capturing_le: "capturing s \<le> length (workers s)"
  using length_filter_le [of "\<lambda>p. p = Capturing" "map wpc (workers s)"]
  by (simp add: capturing_def)

lemma start_occupancy:
  assumes "start j = Inr s0"
  shows "inv_occupancy s0"
proof -
  have "frameBuffer s0 = []" using start_state [OF assms] by simp
  then show ?thesis using capturing_le [of s0] by (simp add: inv_occupancy_def Map_size_def)
qed

lemma run_length_workers:
  "run j sched s = Some s' \<Longrightarrow> length (workers s') = length (workers s)"
proof (induction sched arbitrary: s)
  case Nil
  then show ?case by simp
next
  case (Cons t sched)
  then obtain s1 where s1: "step j t s = Some s1" "run j sched s1 = Some s'"
    by (auto split: option.splits)
  have "length (workers s1) = length (workers s)"
  proof (cases t)
    case (Worker w)
    then have "worker_step j w s = Some s1" using s1(1) by (simp add: step_def)
    then show ?thesis
    proof (cases rule: worker_step_cases)
      case (drain p s2)
      from drain(3) obtain batch l' where "s2 = drained l' s"
        by (rule processEncodeQueue_effect)
      then show ?thesis using drain(4) by simp
    next
      case (insert f rest p s2)
      from insert(4) obtain batch l' where "s2 = drained l' (stored j w f rest s)"
        by (rule processEncodeQueue_effect)
      then show ?thesis using insert(5) by simp
    qed simp_all
  next
    case Main
    then have "main_step j s = Some s1" using s1(1) by (simp add: step_def)
    then show ?thesis
    proof (cases rule: main_step_cases)
      case (drain p s2)
      from drain(3) obtain batch l' where "s2 = drained l' s"
        by (rule processEncodeQueue_effect)
      then show ?thesis using drain(4) by simp
    qed simp_all
  qed
  then show ?case using Cons.IH [OF s1(2)] by simp
qed


subsection \<open>A schedule that completes\<close>

lemma run_append:
  "run j (a @ b) s = (case run j a s of None \<Rightarrow> None | Some s' \<Rightarrow> run j b s')"
  by (induction a arbitrary: s) (auto split: option.splits)

text \<open>The frames of worker \<open>w\<close> from index \<open>i\<close> on.\<close>

definition rowfs :: "'p job \<Rightarrow> nat \<Rightarrow> nat \<Rightarrow> nat list" where
  "rowfs j i w = filter (\<lambda>k. k mod numWorkers j = w) [i..<totalFrames j]"

definition at_rest :: "nat list \<Rightarrow> 'p worker" where
  "at_rest fs = \<lparr>frames = fs, wpc = (if fs = [] then Done else Capturing)\<rparr>"

text \<open>
  \<open>seq_state j i\<close>: frames below \<open>i\<close> are in the output, nothing is buffered, every worker
  is capturing its next frame (or done). \<open>boot_state j k\<close>: the first \<open>k\<close> workers have
  taken their first turn.
\<close>

definition seq_state :: "'p job \<Rightarrow> nat \<Rightarrow> 'p orchestration" where
  "seq_state j i =
     \<lparr>frameBuffer = [], nextEncodeFrame = i, encodedCount = i,
      workers = map (\<lambda>w. at_rest (rowfs j i w)) [0..<numWorkers j],
      mainpc = Ready, appended = expected j i\<rparr>"

definition boot_state :: "'p job \<Rightarrow> nat \<Rightarrow> 'p orchestration" where
  "boot_state j k =
     \<lparr>frameBuffer = [], nextEncodeFrame = 0, encodedCount = 0,
      workers = map (\<lambda>w. if w < k then at_rest (rowfs j 0 w)
                          else \<lparr>frames = rowfs j 0 w, wpc = Ready\<rparr>) [0..<numWorkers j],
      mainpc = Ready, appended = []\<rparr>"

text \<open>Worker \<open>i mod numWorkers\<close> between its capture of frame \<open>i\<close> and its next one.\<close>

definition mid_state :: "'p job \<Rightarrow> nat \<Rightarrow> 'p pc \<Rightarrow> nat \<Rightarrow> nat \<Rightarrow> 'p orchestration" where
  "mid_state j i p e n =
     \<lparr>frameBuffer = [], nextEncodeFrame = e, encodedCount = e,
      workers = map (\<lambda>w. if w = i mod numWorkers j then \<lparr>frames = rowfs j (Suc i) w, wpc = p\<rparr>
                          else at_rest (rowfs j (Suc i) w)) [0..<numWorkers j],
      mainpc = Ready, appended = expected j n\<rparr>"

lemma map_upt_update:
  "w < W \<Longrightarrow> (map g [0..<W])[w := x] = map (\<lambda>v. if v = w then x else g v) [0..<W]"
  by (rule nth_equalityI) (simp_all add: nth_list_update)

lemma rowfs_Suc:
  assumes "i < totalFrames j"
  shows "rowfs j i w = (if w = i mod numWorkers j then i # rowfs j (Suc i) w
                        else rowfs j (Suc i) w)"
proof -
  have "[i..<totalFrames j] = i # [Suc i..<totalFrames j]"
    using assms by (simp add: upt_conv_Cons)
  then show ?thesis by (auto simp: rowfs_def)
qed

lemma rowfs_end [simp]: "rowfs j (totalFrames j) w = []"
  by (simp add: rowfs_def)

lemma start_boot:
  assumes "start j = Inr s0"
  shows "s0 = boot_state j 0"
  using start_state [OF assms] by (simp add: boot_state_def rowfs_def assigned_def)

lemma boot_seq: "boot_state j (numWorkers j) = seq_state j 0"
  by (simp add: boot_state_def seq_state_def expected_def)

lemma boot_step:
  assumes "k < numWorkers j"
  shows "worker_step j k (boot_state j k) = Some (boot_state j (Suc k))"
proof -
  let ?g = "\<lambda>w. if w < k then at_rest (rowfs j 0 w) else \<lparr>frames = rowfs j 0 w, wpc = Ready\<rparr>"
  have top: "loop_top (boot_state j k) fs = (if fs = [] then Done else Capturing)" for fs
    by (cases fs)
       (simp_all add: loop_top_def boot_state_def Map_size_def MAX_BUFFERED_FRAMES_def)
  have wl: "k < length (workers (boot_state j k))"
    using assms by (simp add: boot_state_def)
  have wk: "workers (boot_state j k) ! k = \<lparr>frames = rowfs j 0 k, wpc = Ready\<rparr>"
    using assms by (simp add: boot_state_def)
  have "worker_step j k (boot_state j k)
        = Some (set_pc k (if rowfs j 0 k = [] then Done else Capturing) (boot_state j k))"
    by (simp add: worker_step_def wl wk top)
  also have "set_pc k (if rowfs j 0 k = [] then Done else Capturing) (boot_state j k)
             = boot_state j (Suc k)"
  proof -
    have "(map ?g [0..<numWorkers j])[k := (?g k)\<lparr>wpc := (if rowfs j 0 k = [] then Done else Capturing)\<rparr>]
          = map (\<lambda>w. if w < Suc k then at_rest (rowfs j 0 w)
                      else \<lparr>frames = rowfs j 0 w, wpc = Ready\<rparr>) [0..<numWorkers j]"
      unfolding map_upt_update [OF assms]
      by (rule map_cong) (auto simp: at_rest_def less_Suc_eq)
    then show ?thesis
      using assms by (simp add: set_pc_def boot_state_def)
  qed
  finally show ?thesis .
qed

lemma boot_run:
  "k \<le> numWorkers j \<Longrightarrow> run j (map Worker [0..<k]) (boot_state j 0) = Some (boot_state j k)"
proof (induction k)
  case 0
  then show ?case by simp
next
  case (Suc k)
  then have "run j (map Worker [0..<k]) (boot_state j 0) = Some (boot_state j k)" by simp
  moreover have "step j (Worker k) (boot_state j k) = Some (boot_state j (Suc k))"
    using Suc.prems boot_step [of k j] by (simp add: step_def)
  ultimately show ?case by (simp add: run_append)
qed


lemma processEncodeQueue_single:
  assumes "frameBuffer s = [(i, v)]" and "nextEncodeFrame s = i"
  shows "processEncodeQueue j c s
         = (Encoding c (Suc i) 1 [(v, of_nat i / fps j)], s\<lparr>frameBuffer := []\<rparr>)"
proof -
  have c: "collect (fps j) (Suc (Suc n)) [(i, v)] i = ([(v, of_nat i / fps j)], [], Suc i)" for n
    by (simp add: Map_get_def Map_delete_def)
  have e: "ENCODE_BATCH_SIZE = Suc (Suc 3)" by (simp add: ENCODE_BATCH_SIZE_def)
  have "collect (fps j) ENCODE_BATCH_SIZE [(i, v)] i
                   = ([(v, of_nat i / fps j)], [], Suc i)"
    unfolding e by (rule c)
  then show ?thesis using assms by (simp add: processEncodeQueue_def)
qed

lemma step_capture:
  assumes "w < length (workers s)" and "workers s ! w = \<lparr>frames = f # rest, wpc = Capturing\<rparr>"
  shows "worker_step j w s =
           (case processEncodeQueue j AfterInsert (stored j w f rest s) of
              (p, s2) \<Rightarrow> Some (set_pc w p s2))"
  using assms by (simp add: worker_step_def stored_def)

lemma step_add:
  assumes "w < length (workers s)" and "wpc (workers s ! w) = Encoding c l n (x # xs)"
  shows "worker_step j w s = Some (set_pc w (Encoding c l n xs) (added j x s))"
  using assms by (simp add: worker_step_def added_def sent_def)

lemma step_resolve:
  assumes "w < length (workers s)" and "wpc (workers s ! w) = Encoding c l n []"
  shows "worker_step j w s = Some (set_pc w (Yielded c) (resolved l n s))"
  using assms by (simp add: worker_step_def resolved_def)

lemma step_resume:
  assumes "w < length (workers s)"
    and "workers s ! w = \<lparr>frames = fs, wpc = Yielded AfterInsert\<rparr>"
  shows "worker_step j w s = Some (set_pc w (loop_top s fs) s)"
  using assms by (simp add: worker_step_def resume_worker_def)

lemma expected_Suc:
  "expected j (Suc i) = expected j i @
     [(capture j (i mod numWorkers j) (of_nat i / fps j), of_nat i / fps j, 1 / fps j)]"
  by (simp add: expected_def)

lemma seq_capture:
  assumes i: "i < totalFrames j" and W: "0 < numWorkers j"
  shows "worker_step j (i mod numWorkers j) (seq_state j i)
         = Some (mid_state j i
              (Encoding AfterInsert (Suc i) 1
                 [(capture j (i mod numWorkers j) (of_nat i / fps j), of_nat i / fps j)]) i i)"
proof -
  let ?w = "i mod numWorkers j"
  let ?v = "capture j ?w (of_nat i / fps j)"
  let ?p = "Encoding AfterInsert (Suc i) 1 [(?v, of_nat i / fps j)]"
  let ?rest = "rowfs j (Suc i) ?w"
  have w: "?w < numWorkers j" using W by simp
  have wl: "?w < length (workers (seq_state j i))" using w by (simp add: seq_state_def)
  have wk: "workers (seq_state j i) ! ?w = \<lparr>frames = i # ?rest, wpc = Capturing\<rparr>"
    using w rowfs_Suc [OF i, of ?w] by (simp add: seq_state_def at_rest_def)
  let ?s1 = "stored j ?w i ?rest (seq_state j i)"
  have pq: "processEncodeQueue j AfterInsert ?s1 = (?p, ?s1\<lparr>frameBuffer := []\<rparr>)"
    by (rule processEncodeQueue_single) (simp_all add: seq_state_def)
  have ws: "workers (set_pc ?w ?p (?s1\<lparr>frameBuffer := []\<rparr>))
            = map (\<lambda>v. if v = ?w then \<lparr>frames = ?rest, wpc = ?p\<rparr>
                        else at_rest (rowfs j (Suc i) v)) [0..<numWorkers j]"
  proof -
    have "workers (set_pc ?w ?p (?s1\<lparr>frameBuffer := []\<rparr>))
          = map (\<lambda>v. if v = ?w then \<lparr>frames = ?rest, wpc = ?p\<rparr> else at_rest (rowfs j i v))
              [0..<numWorkers j]"
      using w by (simp add: set_pc_def stored_def seq_state_def map_upt_update cong: if_cong)
    also have "\<dots> = map (\<lambda>v. if v = ?w then \<lparr>frames = ?rest, wpc = ?p\<rparr>
                      else at_rest (rowfs j (Suc i) v)) [0..<numWorkers j]"
      by (rule map_cong) (auto simp: rowfs_Suc [OF i])
    finally show ?thesis .
  qed
  have "set_pc ?w ?p (?s1\<lparr>frameBuffer := []\<rparr>) = mid_state j i ?p i i"
    using ws by (simp add: set_pc_def stored_def seq_state_def mid_state_def)
  then show ?thesis
    using step_capture [OF wl wk, of j] pq by simp
qed

lemma seq_add:
  assumes W: "0 < numWorkers j"
  shows "worker_step j (i mod numWorkers j)
           (mid_state j i (Encoding AfterInsert (Suc i) 1
              [(capture j (i mod numWorkers j) (of_nat i / fps j), of_nat i / fps j)]) i i)
         = Some (mid_state j i (Encoding AfterInsert (Suc i) 1 []) i (Suc i))"
proof -
  let ?w = "i mod numWorkers j"
  let ?x = "(capture j ?w (of_nat i / fps j), of_nat i / fps j)"
  let ?s = "mid_state j i (Encoding AfterInsert (Suc i) 1 [?x]) i i"
  have w: "?w < numWorkers j" using W by simp
  have wl: "?w < length (workers ?s)" using w by (simp add: mid_state_def)
  have wk: "wpc (workers ?s ! ?w) = Encoding AfterInsert (Suc i) 1 (?x # [])"
    using w by (simp add: mid_state_def)
  have "set_pc ?w (Encoding AfterInsert (Suc i) 1 []) (added j ?x ?s)
        = mid_state j i (Encoding AfterInsert (Suc i) 1 []) i (Suc i)"
    using w
    by (simp add: set_pc_def added_def mid_state_def map_upt_update sent_def expected_Suc
          cong: if_cong)
  then show ?thesis using step_add [OF wl wk, of j] by simp
qed

lemma seq_resolve:
  assumes W: "0 < numWorkers j"
  shows "worker_step j (i mod numWorkers j)
           (mid_state j i (Encoding AfterInsert (Suc i) 1 []) i (Suc i))
         = Some (mid_state j i (Yielded AfterInsert) (Suc i) (Suc i))"
proof -
  let ?w = "i mod numWorkers j"
  let ?s = "mid_state j i (Encoding AfterInsert (Suc i) 1 []) i (Suc i)"
  have w: "?w < numWorkers j" using W by simp
  have wl: "?w < length (workers ?s)" using w by (simp add: mid_state_def)
  have wk: "wpc (workers ?s ! ?w) = Encoding AfterInsert (Suc i) 1 []"
    using w by (simp add: mid_state_def)
  have "set_pc ?w (Yielded AfterInsert) (resolved (Suc i) 1 ?s)
        = mid_state j i (Yielded AfterInsert) (Suc i) (Suc i)"
    using w
    by (simp add: set_pc_def resolved_def mid_state_def map_upt_update cong: if_cong)
  then show ?thesis using step_resolve [OF wl wk, of j] by simp
qed

lemma seq_resume:
  assumes W: "0 < numWorkers j"
  shows "worker_step j (i mod numWorkers j) (mid_state j i (Yielded AfterInsert) (Suc i) (Suc i))
         = Some (seq_state j (Suc i))"
proof -
  let ?w = "i mod numWorkers j"
  let ?s = "mid_state j i (Yielded AfterInsert) (Suc i) (Suc i)"
  let ?rest = "rowfs j (Suc i) ?w"
  have w: "?w < numWorkers j" using W by simp
  have wl: "?w < length (workers ?s)" using w by (simp add: mid_state_def)
  have wk: "workers ?s ! ?w = \<lparr>frames = ?rest, wpc = Yielded AfterInsert\<rparr>"
    using w by (simp add: mid_state_def)
  have top: "loop_top ?s ?rest = (if ?rest = [] then Done else Capturing)"
    by (cases ?rest)
       (simp_all add: loop_top_def mid_state_def Map_size_def MAX_BUFFERED_FRAMES_def)
  have ws: "map (\<lambda>v. if v = ?w then \<lparr>frames = ?rest, wpc = (if ?rest = [] then Done else Capturing)\<rparr>
                      else at_rest (rowfs j (Suc i) v)) [0..<numWorkers j]
            = map (\<lambda>v. at_rest (rowfs j (Suc i) v)) [0..<numWorkers j]"
    by (rule map_cong) (auto simp: at_rest_def)
  have "set_pc ?w (if ?rest = [] then Done else Capturing) ?s = seq_state j (Suc i)"
    using w ws
    by (simp add: set_pc_def mid_state_def seq_state_def map_upt_update cong: if_cong)
  then show ?thesis using step_resume [OF wl wk, of j] top by simp
qed

lemma seq_frame:
  assumes "i < totalFrames j" and "0 < numWorkers j"
  shows "run j (replicate 4 (Worker (i mod numWorkers j))) (seq_state j i)
         = Some (seq_state j (Suc i))"
proof -
  have "replicate 4 (Worker (i mod numWorkers j))
        = [Worker (i mod numWorkers j), Worker (i mod numWorkers j),
           Worker (i mod numWorkers j), Worker (i mod numWorkers j)]"
    by (simp add: eval_nat_numeral)
  then show ?thesis
    using seq_capture [OF assms] seq_add [OF assms(2), of i] seq_resolve [OF assms(2), of i]
      seq_resume [OF assms(2), of i]
    by (simp add: step_def)
qed

lemma seq_run:
  assumes "0 < numWorkers j"
  shows "n \<le> totalFrames j \<Longrightarrow>
     run j (concat (map (\<lambda>i. replicate 4 (Worker (i mod numWorkers j))) [0..<n])) (seq_state j 0)
     = Some (seq_state j n)"
proof (induction n)
  case 0
  then show ?case by simp
next
  case (Suc n)
  then show ?case using seq_frame [of n j] assms by (simp add: run_append)
qed

lemma seq_finish:
  "main_step j (seq_state j (totalFrames j)) = Some ((seq_state j (totalFrames j))\<lparr>mainpc := Done\<rparr>)"
  by (simp add: main_step_def seq_state_def final_loop_def list_all_iff at_rest_def)

lemma round_robin_completes:
  assumes "0 < numWorkers j"
  shows "start j = Inr (boot_state j 0)
         \<and> run j (round_robin (numWorkers j) (totalFrames j)) (boot_state j 0)
             = Some ((seq_state j (totalFrames j))\<lparr>mainpc := Done\<rparr>)"
proof -
  obtain s0 where s0: "start j = Inr s0"
    using assms frameAssignments_eq [of "numWorkers j" "totalFrames j"]
    by (auto simp: start_def)
  then have st: "start j = Inr (boot_state j 0)" using start_boot by blast
  have "run j (map Worker [0..<numWorkers j]) (boot_state j 0) = Some (seq_state j 0)"
    using boot_run [of "numWorkers j" j] by (simp add: boot_seq)
  moreover have "run j (concat (map (\<lambda>i. replicate 4 (Worker (i mod numWorkers j)))
                    [0..<totalFrames j])) (seq_state j 0) = Some (seq_state j (totalFrames j))"
    using seq_run [OF assms, of "totalFrames j"] by simp
  moreover have "run j [Main] (seq_state j (totalFrames j))
                 = Some ((seq_state j (totalFrames j))\<lparr>mainpc := Done\<rparr>)"
    using seq_finish [of j] by (simp add: step_def)
  ultimately show ?thesis
    using st by (simp add: round_robin_def run_append)
qed


subsection \<open>Turns that are always there, and the work that is left\<close>

text \<open>
  Where the tasks can be suspended. A worker is in the flow-control loop, or capturing, only
  with a frame still to capture, and is done only with none; its calls of
  \<^verbatim>\<open>processEncodeQueue\<close> come from its own loop. The main task's come from the final loop.
\<close>

fun worker_pc_ok :: "nat list \<Rightarrow> 'p pc \<Rightarrow> bool" where
  "worker_pc_ok fs Ready = True"
| "worker_pc_ok fs Sleeping = (fs \<noteq> [])"
| "worker_pc_ok fs Capturing = (fs \<noteq> [])"
| "worker_pc_ok fs (Encoding c l n r) = (c = AfterInsert \<or> (c = InWaitLoop \<and> fs \<noteq> []))"
| "worker_pc_ok fs (Yielded c) = (c = AfterInsert \<or> (c = InWaitLoop \<and> fs \<noteq> []))"
| "worker_pc_ok fs Done = (fs = [])"

fun main_pc_ok :: "'p pc \<Rightarrow> bool" where
  "main_pc_ok Capturing = False"
| "main_pc_ok (Encoding c l n r) = (c = InFinalLoop)"
| "main_pc_ok (Yielded c) = (c = InFinalLoop)"
| "main_pc_ok p = True"

definition inv_pcs :: "'p orchestration \<Rightarrow> bool" where
  "inv_pcs s \<longleftrightarrow>
     main_pc_ok (mainpc s)
     \<and> (\<forall>w<length (workers s). worker_pc_ok (frames (workers s ! w)) (wpc (workers s ! w)))"

text \<open>A worker is waiting when it is in the flow-control loop.\<close>

fun waiting :: "'p pc \<Rightarrow> bool" where
  "waiting Sleeping = True"
| "waiting (Encoding c l n r) = (c = InWaitLoop)"
| "waiting (Yielded c) = (c = InWaitLoop)"
| "waiting p = False"

definition calm :: "'p orchestration \<Rightarrow> bool" where
  "calm s \<longleftrightarrow> (\<forall>w<length (workers s). \<not> waiting (wpc (workers s ! w)))"

text \<open>
  A bound on the turns a job has left while no worker waits: every buffered frame, every
  frame still to capture and every suspension counts for the turns it can still cause.
\<close>

fun rank :: "'p pc \<Rightarrow> nat" where
  "rank Done = 0"
| "rank Capturing = 1"
| "rank Sleeping = 1"
| "rank Ready = 2"
| "rank (Yielded c) = 2"
| "rank (Encoding c l n r) = 3 + length r"

definition toil :: "'p worker \<Rightarrow> nat" where
  "toil wk = 6 * length (frames wk) + rank (wpc wk)"

definition effort :: "'p orchestration \<Rightarrow> nat" where
  "effort s = 4 * Map_size (frameBuffer s) + sum_list (map toil (workers s)) + rank (mainpc s)"

lemma wpc_put_pc:
  "w < length (workers s) \<Longrightarrow>
     wpc (workers (put_pc (Worker w) p s) ! v) = (if v = w then p else wpc (workers s ! v))"
  by (simp add: put_pc_def set_pc_def nth_list_update)

lemma wpc_put_pc_main [simp]: "wpc (workers (put_pc Main p s) ! v) = wpc (workers s ! v)"
  by (simp add: put_pc_def)

lemma mainpc_put_pc_main [simp]: "mainpc (put_pc Main p s) = p"
  by (simp add: put_pc_def)

lemma sum_list_map_update:
  "i < length xs \<Longrightarrow>
     sum_list (map g (xs[i := y])) + g (xs ! i) = sum_list (map g xs) + (g y :: nat)"
proof (induction xs arbitrary: i)
  case Nil
  then show ?case by simp
next
  case (Cons x xs)
  then show ?case by (cases i) auto
qed

lemma effort_put_pc_worker:
  assumes "w < length (workers s)"
  shows "effort (put_pc (Worker w) p s) + rank (wpc (workers s ! w)) = effort s + rank p"
proof -
  let ?wk = "workers s ! w"
  have "sum_list (map toil ((workers s)[w := ?wk\<lparr>wpc := p\<rparr>])) + toil ?wk
        = sum_list (map toil (workers s)) + toil (?wk\<lparr>wpc := p\<rparr>)"
    using assms by (rule sum_list_map_update)
  then show ?thesis
    by (simp add: effort_def put_pc_def set_pc_def toil_def)
qed

lemma effort_put_pc_main: "effort (put_pc Main p s) + rank (mainpc s) = effort s + rank p"
  by (simp add: effort_def put_pc_def)

lemma effort_stored:
  assumes "w < length (workers s)" and "frames (workers s ! w) = f # rest"
  shows "effort (stored j w f rest s) + 2 \<le> effort s"
proof -
  let ?wk = "workers s ! w"
  have "sum_list (map toil ((workers s)[w := ?wk\<lparr>frames := rest\<rparr>])) + toil ?wk
        = sum_list (map toil (workers s)) + toil (?wk\<lparr>frames := rest\<rparr>)"
    using assms(1) by (rule sum_list_map_update)
  moreover have "toil ?wk = toil (?wk\<lparr>frames := rest\<rparr>) + 6"
    using assms(2) by (simp add: toil_def)
  moreover have "Map_size (frameBuffer (stored j w f rest s)) \<le> Suc (Map_size (frameBuffer s))"
    by (rule size_stored)
  ultimately show ?thesis
    by (simp add: effort_def stored_def)
qed

lemma length_filter_range:
  assumes "\<forall>i. a \<le> i \<and> i < b \<longrightarrow> i \<in> fst ` set m"
  shows "length (filter (\<lambda>e. \<not> (a \<le> fst e \<and> fst e < b)) m) + (b - a) \<le> length (m :: (nat \<times> 'v) list)"
proof -
  let ?P = "\<lambda>e :: nat \<times> 'v. a \<le> fst e \<and> fst e < b"
  have "{a..<b} \<subseteq> fst ` set (filter ?P m)"
    using assms by force
  then have "card {a..<b} \<le> card (fst ` set (filter ?P m))"
    by (intro card_mono) simp_all
  also have "\<dots> \<le> card (set (filter ?P m))" by (intro card_image_le) simp
  also have "\<dots> \<le> length (filter ?P m)" by (rule card_length)
  finally have "b - a \<le> length (filter ?P m)" by simp
  moreover have "length (filter ?P m) + length (filter (\<lambda>e. \<not> ?P e) m) = length m"
    by (rule sum_length_filter_compl)
  ultimately show ?thesis by simp
qed

lemma effort_drained:
  assumes "\<forall>i. nextEncodeFrame s \<le> i \<and> i < l' \<longrightarrow> i \<in> fst ` set (frameBuffer s)"
  shows "effort (drained l' s) + 4 * (l' - nextEncodeFrame s) \<le> effort s"
  using length_filter_range [OF assms] by (simp add: effort_def Map_size_def)

lemma effort_added [simp]: "effort (added j x s) = effort s"
  by (simp add: effort_def)

lemma effort_resolved [simp]: "effort (resolved l n s) = effort s"
  by (simp add: effort_def)



lemma inv_pcs_put_pc_worker:
  assumes "inv_pcs s" and "w < length (workers s)"
    and "worker_pc_ok (frames (workers s ! w)) p"
  shows "inv_pcs (put_pc (Worker w) p s)"
  using assms by (simp add: inv_pcs_def wpc_put_pc)

lemma inv_pcs_put_pc_main: "inv_pcs s \<Longrightarrow> main_pc_ok p \<Longrightarrow> inv_pcs (put_pc Main p s)"
  by (simp add: inv_pcs_def)

lemma inv_pcs_simps [simp]:
  "inv_pcs (drained l' s) = inv_pcs s"
  "inv_pcs (added j x s) = inv_pcs s"
  "inv_pcs (resolved l n s) = inv_pcs s"
  by (simp_all add: inv_pcs_def)

lemma inv_pcs_insert:
  assumes "inv_pcs s" and "w < length (workers s)" and "worker_pc_ok rest p"
  shows "inv_pcs (put_pc (Worker w) p (drained l' (stored j w f rest s)))"
proof -
  let ?s' = "put_pc (Worker w) p (drained l' (stored j w f rest s))"
  have "worker_pc_ok (frames (workers ?s' ! v)) (wpc (workers ?s' ! v))"
    if "v < length (workers s)" for v
  proof (cases "v = w")
    case True
    then show ?thesis using assms(2,3) by (simp add: wpc_put_pc frames_stored)
  next
    case False
    then show ?thesis
      using assms(1,2) that by (simp add: wpc_put_pc frames_stored wpc_stored inv_pcs_def)
  qed
  then show ?thesis using assms(1) by (simp add: inv_pcs_def)
qed

lemma worker_step_pcs:
  assumes pcs: "inv_pcs s" and st: "worker_step j w s = Some s'"
  shows "inv_pcs s'"
  using st
proof (cases rule: worker_step_cases)
  case (quiet p)
  have ok: "worker_pc_ok (frames (workers s ! w)) (wpc (workers s ! w))"
    using pcs quiet(1) by (simp add: inv_pcs_def)
  have "worker_pc_ok (frames (workers s ! w)) p"
  proof (cases "wpc (workers s ! w) = Yielded InWaitLoop")
    case True
    then have "frames (workers s ! w) \<noteq> []" "p = wait_check s" using ok quiet(6) by simp_all
    then show ?thesis by (simp add: wait_check_def)
  next
    case False
    then have p: "p = loop_top s (frames (workers s ! w))" using quiet(6) by simp
    show ?thesis
      unfolding p by (cases "frames (workers s ! w)") (simp_all add: loop_top_def wait_check_def)
  qed
  then show ?thesis using inv_pcs_put_pc_worker [OF pcs quiet(1)] quiet(5) by simp
next
  case (drain p s1)
  from drain(3) obtain batch l' where s1: "s1 = drained l' s"
    and p: "p = (if batch = [] then Yielded InWaitLoop
                 else Encoding InWaitLoop l' (length batch) batch)"
    by (rule processEncodeQueue_effect)
  have ok: "worker_pc_ok (frames (workers s ! w)) (wpc (workers s ! w))"
    using pcs drain(1) by (simp add: inv_pcs_def)
  then have "worker_pc_ok (frames (workers (drained l' s) ! w)) p"
    using drain(2) p by simp
  then show ?thesis
    using inv_pcs_put_pc_worker [of "drained l' s" w p] pcs drain(1,4) s1 by simp
next
  case (insert f rest p s2)
  from insert(4) obtain batch l' where s2: "s2 = drained l' (stored j w f rest s)"
    and p: "p = (if batch = [] then Yielded AfterInsert
                 else Encoding AfterInsert l' (length batch) batch)"
    by (rule processEncodeQueue_effect)
  have "worker_pc_ok rest p" using p by simp
  then show ?thesis using inv_pcs_insert [OF pcs insert(1)] insert(5) s2 by simp
next
  case (add c l n x xs)
  have "worker_pc_ok (frames (workers s ! w)) (wpc (workers s ! w))"
    using pcs add(1) by (simp add: inv_pcs_def)
  then have "worker_pc_ok (frames (workers (added j x s) ! w)) (Encoding c l n xs)"
    using add(2) by simp
  then show ?thesis
    using inv_pcs_put_pc_worker [of "added j x s" w "Encoding c l n xs"] pcs add(1,3) by simp
next
  case (resolve c l n p)
  have "worker_pc_ok (frames (workers s ! w)) (wpc (workers s ! w))"
    using pcs resolve(1) by (simp add: inv_pcs_def)
  then have "worker_pc_ok (frames (workers (resolved l n s) ! w)) p"
    using resolve(2,6) by simp
  then show ?thesis
    using inv_pcs_put_pc_worker [of "resolved l n s" w p] pcs resolve(1,5) by simp
qed

lemma main_step_pcs:
  assumes pcs: "inv_pcs s" and st: "main_step j s = Some s'"
  shows "inv_pcs s'"
  using st
proof (cases rule: main_step_cases)
  case (quiet p)
  then have "main_pc_ok p" by auto
  then show ?thesis using inv_pcs_put_pc_main [OF pcs] quiet(6) by simp
next
  case (drain p s1)
  from drain(3) obtain batch l' where s1: "s1 = drained l' s"
    and p: "p = (if batch = [] then Yielded InFinalLoop
                 else Encoding InFinalLoop l' (length batch) batch)"
    by (rule processEncodeQueue_effect)
  have "main_pc_ok p" using p by simp
  then show ?thesis using inv_pcs_put_pc_main [of "drained l' s" p] pcs drain(4) s1 by simp
next
  case (add c l n x xs)
  have "main_pc_ok (mainpc s)" using pcs by (simp add: inv_pcs_def)
  then have "main_pc_ok (Encoding c l n xs)" using add(1) by simp
  then show ?thesis
    using inv_pcs_put_pc_main [of "added j x s" "Encoding c l n xs"] pcs add(2) by simp
next
  case (resolve c l n p)
  have "main_pc_ok (mainpc s)" using pcs by (simp add: inv_pcs_def)
  then have "main_pc_ok p" using resolve(1,6) by simp
  then show ?thesis
    using inv_pcs_put_pc_main [of "resolved l n s" p] pcs resolve(5) by simp
qed

lemma step_pcs: "inv_pcs s \<Longrightarrow> step j t s = Some s' \<Longrightarrow> inv_pcs s'"
  by (cases t) (auto simp: step_def intro: worker_step_pcs main_step_pcs)

lemma run_pcs: "inv_pcs s \<Longrightarrow> run j sched s = Some s' \<Longrightarrow> inv_pcs s'"
proof (induction sched arbitrary: s)
  case Nil
  then show ?case by simp
next
  case (Cons t sched)
  then obtain s1 where "step j t s = Some s1" "run j sched s1 = Some s'"
    by (auto split: option.splits)
  then show ?case using Cons.IH step_pcs [OF Cons.prems(1)] by blast
qed

lemma start_pcs: "start j = Inr s0 \<Longrightarrow> inv_pcs s0"
  using start_state [of j s0] by (simp add: inv_pcs_def)




text \<open>An unfinished job always has a task with a turn to take; a finished one has none.\<close>

lemma worker_has_turn:
  assumes w: "w < length (workers s)" and nd: "wpc (workers s ! w) \<noteq> Done"
    and ok: "worker_pc_ok (frames (workers s ! w)) (wpc (workers s ! w))"
  shows "\<exists>s'. worker_step j w s = Some s'"
proof (cases "wpc (workers s ! w)")
  case Ready
  then show ?thesis using w by (simp add: worker_step_def)
next
  case Sleeping
  then show ?thesis
    using w by (cases "processEncodeQueue j InWaitLoop s") (simp add: worker_step_def)
next
  case Capturing
  then obtain f rest where fr: "frames (workers s ! w) = f # rest"
    using ok by (cases "frames (workers s ! w)") auto
  show ?thesis
    using w Capturing fr
    by (cases "processEncodeQueue j AfterInsert (stored j w f rest s)")
       (simp add: worker_step_def stored_def Let_def)
next
  case (Encoding c l n r)
  then show ?thesis using w by (cases r) (simp_all add: worker_step_def)
next
  case (Yielded c)
  then have "c \<noteq> InFinalLoop" using ok by auto
  then show ?thesis
    using w Yielded by (cases c) (simp_all add: worker_step_def resume_worker_def)
next
  case Done
  then show ?thesis using nd by simp
qed

lemma main_has_turn:
  assumes alld: "list_all (\<lambda>wk. wpc wk = Done) (workers s)" and nd: "mainpc s \<noteq> Done"
    and ok: "main_pc_ok (mainpc s)"
  shows "\<exists>s'. main_step j s = Some s'"
proof (cases "mainpc s")
  case Ready
  then show ?thesis using alld by (simp add: main_step_def)
next
  case Sleeping
  then show ?thesis by (simp add: main_step_def)
next
  case Capturing
  then show ?thesis using ok by simp
next
  case (Encoding c l n r)
  then show ?thesis by (cases r) (simp_all add: main_step_def)
next
  case (Yielded c)
  then have "c = InFinalLoop" using ok by simp
  then show ?thesis using Yielded by (simp add: main_step_def resume_main_def)
next
  case Done
  then show ?thesis using nd by simp
qed

lemma unfinished_has_turn:
  assumes pcs: "inv_pcs s" and nd: "mainpc s \<noteq> Done"
  shows "\<exists>t s'. step j t s = Some s'"
proof (cases "\<exists>w<length (workers s). wpc (workers s ! w) \<noteq> Done")
  case True
  then obtain w where w: "w < length (workers s)" "wpc (workers s ! w) \<noteq> Done" by blast
  have ok: "worker_pc_ok (frames (workers s ! w)) (wpc (workers s ! w))"
    using pcs w(1) by (simp add: inv_pcs_def)
  from worker_has_turn [OF w ok] obtain s' where "worker_step j w s = Some s'" by blast
  then have "step j (Worker w) s = Some s'" by (simp add: step_def)
  then show ?thesis by blast
next
  case False
  then have alld: "list_all (\<lambda>wk. wpc wk = Done) (workers s)"
    by (simp add: list_all_length)
  have ok: "main_pc_ok (mainpc s)" using pcs by (simp add: inv_pcs_def)
  from main_has_turn [OF alld nd ok] obtain s' where "main_step j s = Some s'" by blast
  then have "step j Main s = Some s'" by (simp add: step_def)
  then show ?thesis by blast
qed

lemma finished_no_turn:
  assumes "inv_main j s" and "mainpc s = Done"
  shows "step j t s = None"
proof (cases t)
  case (Worker w)
  show ?thesis
  proof (cases "w < length (workers s)")
    case True
    then have "wpc (workers s ! w) = Done" using assms by (simp add: inv_main_def)
    then show ?thesis using Worker True by (simp add: step_def worker_step_def)
  next
    case False
    then show ?thesis using Worker by (simp add: step_def worker_step_def)
  qed
next
  case Main
  then show ?thesis using assms(2) by (simp add: step_def main_step_def)
qed




lemma calm_put_pc_worker:
  "calm s \<Longrightarrow> w < length (workers s) \<Longrightarrow> \<not> waiting p \<Longrightarrow> calm (put_pc (Worker w) p s)"
  by (simp add: calm_def wpc_put_pc)

lemma calm_simps [simp]:
  "calm (put_pc Main p s) = calm s"
  "calm (drained l' s) = calm s"
  "calm (added j x s) = calm s"
  "calm (resolved l n s) = calm s"
  "calm (stored j w f rest s) = calm s"
  by (simp_all add: calm_def wpc_stored)

text \<open>
  While no worker waits and the buffer is not above the capacity, every turn of a worker
  leaves less to do, and no worker starts to wait.
\<close>

lemma worker_step_effort:
  assumes cl: "calm s" and sz: "Map_size (frameBuffer s) \<le> MAX_BUFFERED_FRAMES"
    and st: "worker_step j w s = Some s'"
  shows "effort s' < effort s \<and> calm s'"
  using st
proof (cases rule: worker_step_cases)
  case (quiet p)
  have nw: "\<not> waiting (wpc (workers s ! w))" using cl quiet(1) by (simp add: calm_def)
  then have "wpc (workers s ! w) \<noteq> Yielded InWaitLoop" by auto
  then have p: "p = loop_top s (frames (workers s ! w))" using quiet(6) by simp
  have pd: "p = Done \<or> p = Capturing"
    unfolding p using sz by (cases "frames (workers s ! w)") (simp_all add: loop_top_def)
  have r: "rank (wpc (workers s ! w)) = 2" using quiet(2) by auto
  have "effort s' + rank (wpc (workers s ! w)) = effort s + rank p"
    using effort_put_pc_worker [OF quiet(1), of p] quiet(5) by simp
  then have "effort s' < effort s" using r pd by auto
  moreover have "calm s'" using calm_put_pc_worker [OF cl quiet(1), of p] pd quiet(5) by auto
  ultimately show ?thesis by simp
next
  case (drain p s1)
  then have False using cl by (auto simp: calm_def)
  then show ?thesis ..
next
  case (insert f rest p s2)
  let ?s1 = "stored j w f rest s"
  from insert(4) obtain batch l' where
    l': "l' = nextEncodeFrame ?s1 + length batch"
    and "length batch \<le> ENCODE_BATCH_SIZE"
    and "batch = map (\<lambda>i. (the (map_of (frameBuffer ?s1) i), of_nat i / fps j))
                          [nextEncodeFrame ?s1..<l']"
    and keys: "\<forall>i. nextEncodeFrame ?s1 \<le> i \<and> i < l' \<longrightarrow> i \<in> fst ` set (frameBuffer ?s1)"
    and s2: "s2 = drained l' ?s1"
    and p: "p = (if batch = [] then Yielded AfterInsert
                 else Encoding AfterInsert l' (length batch) batch)"
    by (rule processEncodeQueue_effect)
  have e1: "effort ?s1 + 2 \<le> effort s" using effort_stored [OF insert(1,3)] .
  have e2: "effort s2 + 4 * length batch \<le> effort ?s1"
    using effort_drained [OF keys] s2 l' by simp
  have pc2: "wpc (workers s2 ! w) = Capturing" using s2 insert(2) by (simp add: wpc_stored)
  have w2: "w < length (workers s2)" using s2 insert(1) by simp
  have e3: "effort s' + 1 = effort s2 + rank p"
    using effort_put_pc_worker [OF w2, of p] pc2 insert(5) by simp
  have rp: "rank p \<le> 3 * length batch + 2" using p by (cases batch) simp_all
  have "effort s' < effort s" using e1 e2 e3 rp by simp
  moreover have "\<not> waiting p" using p by simp
  then have "calm s'"
    using calm_put_pc_worker [of s2 w p] w2 cl s2 insert(5) by simp
  ultimately show ?thesis by simp
next
  case (add c l n x xs)
  have nw: "\<not> waiting (wpc (workers s ! w))" using cl add(1) by (simp add: calm_def)
  have "effort s' + rank (Encoding c l n (x # xs)) = effort s + rank (Encoding c l n xs)"
    using effort_put_pc_worker [of w "added j x s" "Encoding c l n xs"] add by simp
  then have "effort s' < effort s" by simp
  moreover have "calm s'"
    using calm_put_pc_worker [of "added j x s" w "Encoding c l n xs"] cl add nw by simp
  ultimately show ?thesis by simp
next
  case (resolve c l n p)
  have nw: "\<not> waiting (wpc (workers s ! w))" using cl resolve(1) by (simp add: calm_def)
  have "effort s' + rank (Encoding c l n []) = effort s + rank p"
    using effort_put_pc_worker [of w "resolved l n s" p] resolve(1,2,5) by simp
  then have "effort s' < effort s" using resolve(6) by simp
  moreover have "calm s'"
    using calm_put_pc_worker [of "resolved l n s" w p] cl resolve nw by simp
  ultimately show ?thesis by simp
qed

text \<open>
  When all workers are done, the frame the encoder is to get next is in the buffer: the
  final loop never polls in vain.
\<close>

lemma final_loop_head:
  assumes inv: "invariant j s" and pcs: "inv_pcs s"
    and alld: "\<forall>w<length (workers s). wpc (workers s ! w) = Done"
    and nf: "\<not> flying (mainpc s)" and more: "encodedCount s < totalFrames j"
  shows "nextEncodeFrame s \<in> fst ` set (frameBuffer s)"
proof -
  have "\<not> flying (pc_of s t)" if "is_task s t" for t
    using that alld nf by (cases t) (simp_all add: pc_of_def is_task_def)
  then have fr: "front j s (nextEncodeFrame s)"
    using inv unfolding invariant_def inv_flight_def by blast
  have "encodedCount s = nextEncodeFrame s"
    using inv by (simp add: invariant_def inv_buffer_def)
  then have "nextEncodeFrame s < totalFrames j" using more by simp
  then have "nextEncodeFrame s \<in> fst ` set (frameBuffer s)
      \<or> (\<exists>w<length (workers s). nextEncodeFrame s \<in> set (frames (workers s ! w)))"
    using fr by (simp add: front_def)
  moreover have "frames (workers s ! w) = []" if "w < length (workers s)" for w
  proof -
    have "worker_pc_ok (frames (workers s ! w)) (wpc (workers s ! w))"
      using pcs that by (simp add: inv_pcs_def)
    then show ?thesis using alld that by simp
  qed
  ultimately show ?thesis by auto
qed

lemma main_step_effort:
  assumes inv: "invariant j s" and pcs: "inv_pcs s" and st: "main_step j s = Some s'"
  shows "effort s' < effort s"
  using st
proof (cases rule: main_step_cases)
  case (quiet p)
  have "effort s' + rank (mainpc s) = effort s + rank p"
    using effort_put_pc_main [of p s] quiet(6) by simp
  then show ?thesis using quiet(7,8) by auto
next
  case (drain p s1)
  from drain(3) obtain batch l' where
    l': "l' = nextEncodeFrame s + length batch"
    and "length batch \<le> ENCODE_BATCH_SIZE"
    and "batch = map (\<lambda>i. (the (map_of (frameBuffer s) i), of_nat i / fps j))
                          [nextEncodeFrame s..<l']"
    and keys: "\<forall>i. nextEncodeFrame s \<le> i \<and> i < l' \<longrightarrow> i \<in> fst ` set (frameBuffer s)"
    and s1: "s1 = drained l' s"
    and p: "p = (if batch = [] then Yielded InFinalLoop
                 else Encoding InFinalLoop l' (length batch) batch)"
    and stop: "length batch < ENCODE_BATCH_SIZE \<longrightarrow> l' \<notin> fst ` set (frameBuffer s)"
    by (rule processEncodeQueue_effect)
  have alld: "\<forall>w<length (workers s). wpc (workers s ! w) = Done"
  proof (cases "mainpc s = Ready")
    case True
    then show ?thesis using drain(2) by (simp add: list_all_length)
  next
    case False
    then show ?thesis using inv by (simp add: invariant_def inv_main_def)
  qed
  have head: "nextEncodeFrame s \<in> fst ` set (frameBuffer s)"
    using final_loop_head [OF inv pcs alld drain(1,5)] .
  have ne: "batch \<noteq> []"
  proof
    assume "batch = []"
    then have "l' = nextEncodeFrame s" "length batch < ENCODE_BATCH_SIZE"
      using l' by (simp_all add: ENCODE_BATCH_SIZE_def)
    then show False using stop head by simp
  qed
  have e1: "effort s1 + 4 * length batch \<le> effort s"
    using effort_drained [OF keys] s1 l' by simp
  have e2: "effort s' + rank (mainpc s) = effort s1 + rank p"
    using effort_put_pc_main [of p s1] drain(4) s1 by simp
  have rp: "rank p = 3 + length batch" using p ne by simp
  have rm: "1 \<le> rank (mainpc s)" using drain(6) by auto
  have "1 \<le> length batch" using ne by (cases batch) simp_all
  then show ?thesis using e1 e2 rp rm by linarith
next
  case (add c l n x xs)
  have "effort s' + rank (Encoding c l n (x # xs)) = effort s + rank (Encoding c l n xs)"
    using effort_put_pc_main [of "Encoding c l n xs" "added j x s"] add by simp
  then show ?thesis by simp
next
  case (resolve c l n p)
  have "effort s' + rank (Encoding c l n []) = effort s + rank p"
    using effort_put_pc_main [of p "resolved l n s"] resolve(1,5) by simp
  then show ?thesis using resolve(6) by simp
qed

lemma main_step_calm:
  assumes "calm s" and "main_step j s = Some s'"
  shows "calm s'"
  using assms(2)
proof (cases rule: main_step_cases)
  case (drain p s1)
  from drain(3) obtain batch l' where "s1 = drained l' s"
    by (rule processEncodeQueue_effect)
  then show ?thesis using assms(1) drain(4) by simp
qed (use assms(1) in simp_all)

lemma size_le_frames:
  assumes "inv_buffer j s"
  shows "Map_size (frameBuffer s) \<le> totalFrames j"
proof -
  have d: "distinct (map fst (frameBuffer s))"
    and r: "\<forall>e\<in>set (frameBuffer s). fst e < totalFrames j"
    using assms by (simp_all add: inv_buffer_def)
  have "length (map fst (frameBuffer s)) = card (set (map fst (frameBuffer s)))"
    using distinct_card [OF d] by simp
  also have "\<dots> \<le> card {0..<totalFrames j}"
    using r by (intro card_mono) auto
  finally show ?thesis by (simp add: Map_size_def)
qed

text \<open>
  With a single worker the buffer is empty between turns: the frame a capture has stored is
  the one the encoder is to get next, and the same turn takes it out again.
\<close>

lemma solo_insert:
  assumes one: "numWorkers j = 1" and inv: "invariant j s" and empty: "frameBuffer s = []"
    and w: "w < length (workers s)" and cap: "wpc (workers s ! w) = Capturing"
    and fr: "frames (workers s ! w) = f # rest"
  shows "nextEncodeFrame s = f"
proof -
  have fl: "inv_flight j s" and bf: "inv_buffer j s" and mn: "inv_main j s"
    using inv by (simp_all add: invariant_def)
  have len: "length (workers s) = 1" using bf one by (simp add: inv_buffer_def)
  then have w0: "w = 0" using w by simp
  have "mainpc s = Ready" using mn w cap by (auto simp: inv_main_def)
  then have "\<not> flying (pc_of s t)" if "is_task s t" for t
    using that len cap w0 by (cases t) (simp_all add: pc_of_def is_task_def)
  then have front: "front j s (nextEncodeFrame s)"
    using fl unfolding inv_flight_def by blast
  have lo: "nextEncodeFrame s \<le> f" using front w fr by (auto simp: front_def)
  have "f < totalFrames j" using bf w fr one len by (auto simp: inv_buffer_def)
  then have "nextEncodeFrame s < totalFrames j" using lo by simp
  then have "\<exists>v<length (workers s). nextEncodeFrame s \<in> set (frames (workers s ! v))"
    using front empty by (simp add: front_def)
  then have "nextEncodeFrame s \<in> set (f # rest)" using len w0 fr by simp
  moreover have "sorted (f # rest)" using bf one w0 fr by (auto simp: inv_buffer_def)
  ultimately have "f \<le> nextEncodeFrame s" by auto
  then show ?thesis using lo by simp
qed

lemma solo_step:
  assumes one: "numWorkers j = 1" and inv: "invariant j s" and empty: "frameBuffer s = []"
    and st: "step j t s = Some s'"
  shows "frameBuffer s' = []"
proof (cases t)
  case (Worker w)
  then have "worker_step j w s = Some s'" using st by (simp add: step_def)
  then show ?thesis
  proof (cases rule: worker_step_cases)
    case (drain p s1)
    from drain(3) obtain batch l' where "s1 = drained l' s"
      by (rule processEncodeQueue_effect)
    then show ?thesis using drain(4) empty by simp
  next
    case (insert f rest p s2)
    let ?s1 = "stored j w f rest s"
    from insert(4) obtain batch l' where
      l': "l' = nextEncodeFrame ?s1 + length batch"
      and "length batch \<le> ENCODE_BATCH_SIZE"
      and "batch = map (\<lambda>i. (the (map_of (frameBuffer ?s1) i), of_nat i / fps j))
                          [nextEncodeFrame ?s1..<l']"
      and "\<forall>i. nextEncodeFrame ?s1 \<le> i \<and> i < l' \<longrightarrow> i \<in> fst ` set (frameBuffer ?s1)"
      and s2: "s2 = drained l' ?s1"
      and "p = (if batch = [] then Yielded AfterInsert
                 else Encoding AfterInsert l' (length batch) batch)"
      and stop: "length batch < ENCODE_BATCH_SIZE \<longrightarrow> l' \<notin> fst ` set (frameBuffer ?s1)"
      by (rule processEncodeQueue_effect)
    have nf: "nextEncodeFrame s = f" using solo_insert [OF one inv empty insert(1,2,3)] .
    have buf: "frameBuffer ?s1 = [(f, capture j w (of_nat f / fps j))]" using empty by simp
    have "batch \<noteq> []"
    proof
      assume "batch = []"
      then have "l' = f" "length batch < ENCODE_BATCH_SIZE"
        using l' nf by (simp_all add: ENCODE_BATCH_SIZE_def)
      then show False using stop buf by simp
    qed
    then have "f < l'" using l' nf by (cases batch) simp_all
    then have "frameBuffer s2 = []" using s2 buf nf by simp
    then show ?thesis using insert(5) by simp
  qed (use empty in simp_all)
next
  case Main
  then have "main_step j s = Some s'" using st by (simp add: step_def)
  then show ?thesis
  proof (cases rule: main_step_cases)
    case (drain p s1)
    from drain(3) obtain batch l' where "s1 = drained l' s"
      by (rule processEncodeQueue_effect)
    then show ?thesis using drain(4) empty by simp
  qed (use empty in simp_all)
qed

text \<open>
  A job that never fills the buffer: one of no more frames than the buffer's capacity, or one
  with a single worker. No worker ever waits, every turn leaves less to do, so a schedule
  cannot be longer than what there is to do at the start.
\<close>

definition roomy :: "'p job \<Rightarrow> 'p orchestration \<Rightarrow> bool" where
  "roomy j s \<longleftrightarrow>
     totalFrames j \<le> MAX_BUFFERED_FRAMES \<or> (numWorkers j = 1 \<and> frameBuffer s = [])"

lemma step_effort:
  assumes rm: "roomy j s"
    and inv: "invariant j s" and pcs: "inv_pcs s" and cl: "calm s"
    and st: "step j t s = Some s'"
  shows "effort s' < effort s \<and> calm s' \<and> roomy j s'"
proof -
  have sz: "Map_size (frameBuffer s) \<le> MAX_BUFFERED_FRAMES"
    using rm size_le_frames [of j s] inv
    by (auto simp: roomy_def invariant_def Map_size_def)
  have rm': "roomy j s'"
    using rm solo_step [OF _ inv _ st] by (auto simp: roomy_def)
  show ?thesis
  proof (cases t)
    case (Worker w)
    then show ?thesis
      using worker_step_effort [OF cl sz, of j w s'] st rm' by (simp add: step_def)
  next
    case Main
    then have "main_step j s = Some s'" using st by (simp add: step_def)
    then show ?thesis
      using main_step_effort [OF inv pcs] main_step_calm [OF cl] rm' by blast
  qed
qed

lemma run_effort:
  "roomy j s \<Longrightarrow> invariant j s \<Longrightarrow> inv_pcs s \<Longrightarrow> calm s \<Longrightarrow> run j sched s = Some s' \<Longrightarrow>
     length sched + effort s' \<le> effort s"
proof (induction sched arbitrary: s)
  case Nil
  then show ?case by simp
next
  case (Cons t sched)
  then obtain s1 where s1: "step j t s = Some s1" "run j sched s1 = Some s'"
    by (auto split: option.splits)
  have "effort s1 < effort s" "calm s1" "roomy j s1"
    using step_effort [OF Cons.prems(1-4) s1(1)] by simp_all
  moreover have "invariant j s1" using step_invariant [OF Cons.prems(2) s1(1)] .
  moreover have "inv_pcs s1" using step_pcs [OF Cons.prems(3) s1(1)] .
  ultimately show ?case using Cons.IH [OF _ _ _ _ s1(2)] by simp
qed

lemma sum_list_hit: "sum_list (map (\<lambda>w. if a = w then 1 else 0) [0..<W]) = (if a < W then 1 else (0::nat))"
  by (induction W) auto

lemma length_rows:
  "sum_list (map (\<lambda>w. length (filter (\<lambda>k. k mod W = w) xs)) [0..<W]) \<le> length xs"
proof (induction xs)
  case Nil
  then show ?case by simp
next
  case (Cons x xs)
  have "sum_list (map (\<lambda>w. length (filter (\<lambda>k. k mod W = w) (x # xs))) [0..<W])
        = sum_list (map (\<lambda>w. (if x mod W = w then 1 else 0)
                              + length (filter (\<lambda>k. k mod W = w) xs)) [0..<W])"
    by (intro arg_cong [of _ _ sum_list] map_cong) simp_all
  also have "\<dots> = sum_list (map (\<lambda>w. if x mod W = w then 1 else 0) [0..<W])
                  + sum_list (map (\<lambda>w. length (filter (\<lambda>k. k mod W = w) xs)) [0..<W])"
    by (rule sum_list_addf)
  also have "\<dots> \<le> 1 + length xs"
    using Cons by (simp add: sum_list_hit)
  finally show ?case by simp
qed

lemma sum_list_toil:
  "sum_list (map (\<lambda>w. 6 * f w + 2) ws) = 6 * sum_list (map f ws) + 2 * length (ws :: nat list)"
  by (induction ws) simp_all

lemma start_effort:
  assumes "start j = Inr s0"
  shows "effort s0 \<le> 6 * totalFrames j + 2 * numWorkers j + 2"
proof -
  note s0 = start_state [OF assms]
  have "map toil (workers s0)
        = map (\<lambda>w. 6 * length (assigned (numWorkers j) (totalFrames j) w) + 2) [0..<numWorkers j]"
    by (simp add: s0 toil_def comp_def)
  then have "sum_list (map toil (workers s0))
        = sum_list (map (\<lambda>w. 6 * length (assigned (numWorkers j) (totalFrames j) w) + 2)
                     [0..<numWorkers j])"
    by (rule arg_cong)
  also have "\<dots> = 6 * sum_list (map (\<lambda>w. length (assigned (numWorkers j) (totalFrames j) w))
                          [0..<numWorkers j]) + 2 * length [0..<numWorkers j]"
    by (rule sum_list_toil)
  finally have "sum_list (map toil (workers s0))
        = 6 * sum_list (map (\<lambda>w. length (assigned (numWorkers j) (totalFrames j) w))
                          [0..<numWorkers j]) + 2 * numWorkers j"
    by simp
  moreover have "sum_list (map (\<lambda>w. length (assigned (numWorkers j) (totalFrames j) w))
                          [0..<numWorkers j]) \<le> totalFrames j"
    using length_rows [of "numWorkers j" "[0..<totalFrames j]"] by (simp add: assigned_def)
  ultimately show ?thesis
    by (simp add: effort_def s0 Map_size_def)
qed

lemma start_calm: "start j = Inr s0 \<Longrightarrow> calm s0"
  using start_state [of j s0] by (simp add: calm_def)

lemma roomy_job_finishes:
  assumes rm: "totalFrames j \<le> MAX_BUFFERED_FRAMES \<or> numWorkers j = 1"
    and st: "start j = Inr s0" and rn: "run j sched s0 = Some s"
  shows "length sched \<le> 6 * totalFrames j + 2 * numWorkers j + 2"
    and "mainpc s \<noteq> Done \<Longrightarrow> \<exists>t s'. step j t s = Some s'"
    and "mainpc s = Done \<Longrightarrow> step j t s = None"
    and "mainpc s = Done \<Longrightarrow> appended s = expected j (totalFrames j)"
proof -
  have inv0: "invariant j s0" "inv_pcs s0" "calm s0"
    using start_invariant [OF st] start_pcs [OF st] start_calm [OF st] by simp_all
  have "frameBuffer s0 = []" using start_state [OF st] by simp
  then have rm0: "roomy j s0" using rm by (auto simp: roomy_def)
  have "length sched + effort s \<le> effort s0"
    using run_effort [OF rm0 inv0 rn] .
  then show "length sched \<le> 6 * totalFrames j + 2 * numWorkers j + 2"
    using start_effort [OF st] by simp
  have inv: "invariant j s" "inv_pcs s"
    using run_invariant [OF inv0(1) rn] run_pcs [OF inv0(2) rn] by simp_all
  show "mainpc s \<noteq> Done \<Longrightarrow> \<exists>t s'. step j t s = Some s'"
    using unfinished_has_turn [OF inv(2)] by blast
  show "mainpc s = Done \<Longrightarrow> step j t s = None"
    using finished_no_turn [of j s t] inv(1) by (simp add: invariant_def)
  show "mainpc s = Done \<Longrightarrow> appended s = expected j (totalFrames j)"
    using output_finished [OF inv(1)] by simp
qed


subsection \<open>The output of a job\<close>

lemma totalFrames_60: "totalFrames_of 2 30 = 60"
  by (simp add: totalFrames_of_def)

text \<open>
  Claim C3. In every state a job can reach, under every schedule, the output container has
  received the captures of frames \<open>0, 1, ..., k - 1\<close> in this order, one append per frame,
  frame \<open>i\<close> at timestamp \<open>i / fps\<close> with duration \<open>1 / fps\<close>, for some \<open>k\<close> at most the
  frame count; when the job has finished, \<open>k\<close> is the frame count. The job with fps = 30,
  duration = 2 s and 4 workers starts, and whatever the schedule: it has taken at most 370
  turns; as long as it has not finished some task has a turn to take; and once it has
  finished no task has a turn left and the container has received exactly 60 appends,
  frame \<open>i\<close> at \<open>i / 30\<close> with duration \<open>1 / 30\<close>. So every run of this job ends, and ends
  with these 60 appends.
\<close>

theorem output_in_frame_order:
  "(start j = Inr s0 \<and> run j sched s0 = Some s \<longrightarrow>
      appended s = expected j (length (appended s))
      \<and> length (appended s) \<le> totalFrames j
      \<and> (mainpc s = Done \<longrightarrow> appended s = expected j (totalFrames j)))
   \<and> (\<exists>q0. start (render_job 30 2 4 cap) = Inr q0)
   \<and> (start (render_job 30 2 4 cap) = Inr r0 \<and> run (render_job 30 2 4 cap) sched' r0 = Some r
        \<longrightarrow>
      length sched' \<le> 370
      \<and> (mainpc r \<noteq> Done \<longrightarrow> (\<exists>t r'. step (render_job 30 2 4 cap) t r = Some r'))
      \<and> (mainpc r = Done \<longrightarrow>
           (\<forall>t. step (render_job 30 2 4 cap) t r = None)
           \<and> length (appended r) = 60
           \<and> appended r
               = map (\<lambda>i. (cap (i mod 4) (of_nat i / 30), of_nat i / 30, 1 / 30)) [0..<60]))"
proof (intro conjI)
  show "start j = Inr s0 \<and> run j sched s0 = Some s \<longrightarrow>
      appended s = expected j (length (appended s))
      \<and> length (appended s) \<le> totalFrames j
      \<and> (mainpc s = Done \<longrightarrow> appended s = expected j (totalFrames j))"
  proof
    assume "start j = Inr s0 \<and> run j sched s0 = Some s"
    then have inv: "invariant j s" using reachable_invariant by blast
    show "appended s = expected j (length (appended s))
      \<and> length (appended s) \<le> totalFrames j
      \<and> (mainpc s = Done \<longrightarrow> appended s = expected j (totalFrames j))"
      using output_prefix [OF inv] output_finished [OF inv] by blast
  qed
next
  let ?j = "render_job 30 2 4 cap"
  have "0 < numWorkers ?j" by (simp add: render_job_def)
  from round_robin_completes [OF this]
  show "\<exists>q0. start ?j = Inr q0" by blast
next
  let ?j = "render_job 30 2 4 cap"
  have n: "numWorkers ?j = 4" "totalFrames ?j = 60"
    by (simp_all add: render_job_def totalFrames_60)
  have small: "totalFrames ?j \<le> MAX_BUFFERED_FRAMES \<or> numWorkers ?j = 1"
    using n by (simp add: MAX_BUFFERED_FRAMES_def)
  show "start ?j = Inr r0 \<and> run ?j sched' r0 = Some r \<longrightarrow>
      length sched' \<le> 370
      \<and> (mainpc r \<noteq> Done \<longrightarrow> (\<exists>t r'. step ?j t r = Some r'))
      \<and> (mainpc r = Done \<longrightarrow>
           (\<forall>t. step ?j t r = None)
           \<and> length (appended r) = 60
           \<and> appended r
               = map (\<lambda>i. (cap (i mod 4) (of_nat i / 30), of_nat i / 30, 1 / 30)) [0..<60])"
  proof
    assume a: "start ?j = Inr r0 \<and> run ?j sched' r0 = Some r"
    then have st: "start ?j = Inr r0" and rn: "run ?j sched' r0 = Some r" by simp_all
    have len: "length sched' \<le> 370"
      using roomy_job_finishes(1) [OF small st rn] n by simp
    have turn: "mainpc r \<noteq> Done \<longrightarrow> (\<exists>t r'. step ?j t r = Some r')"
      using roomy_job_finishes(2) [OF small st rn] by blast
    have fin: "(\<forall>t. step ?j t r = None)
           \<and> length (appended r) = 60
           \<and> appended r
               = map (\<lambda>i. (cap (i mod 4) (of_nat i / 30), of_nat i / 30, 1 / 30)) [0..<60]"
      if d: "mainpc r = Done"
    proof -
      have "appended r = expected ?j 60"
        using roomy_job_finishes(4) [OF small st rn d] n by simp
      then have "length (appended r) = 60
           \<and> appended r
               = map (\<lambda>i. (cap (i mod 4) (of_nat i / 30), of_nat i / 30, 1 / 30)) [0..<60]"
        by (simp add: expected_def render_job_def)
      moreover have "\<forall>t. step ?j t r = None"
        using roomy_job_finishes(3) [OF small st rn d] by blast
      ultimately show ?thesis by blast
    qed
    show "length sched' \<le> 370
      \<and> (mainpc r \<noteq> Done \<longrightarrow> (\<exists>t r'. step ?j t r = Some r'))
      \<and> (mainpc r = Done \<longrightarrow>
           (\<forall>t. step ?j t r = None)
           \<and> length (appended r) = 60
           \<and> appended r
               = map (\<lambda>i. (cap (i mod 4) (of_nat i / 30), of_nat i / 30, 1 / 30)) [0..<60])"
      using len turn fin by blast
  qed
qed

theorem output_in_frame_order_witness:
  "start job60 = Inr (boot_state job60 0)
   \<and> run job60 [] (boot_state job60 0) = Some (boot_state job60 0)
   \<and> mainpc (boot_state job60 0) \<noteq> Done
   \<and> (\<exists>t r'. step job60 t (boot_state job60 0) = Some r')
   \<and> run job60 (round_robin 4 60) (boot_state job60 0)
       = Some ((seq_state job60 60)\<lparr>mainpc := Done\<rparr>)
   \<and> mainpc ((seq_state job60 60)\<lparr>mainpc := Done\<rparr>) = Done
   \<and> length (round_robin 4 60) \<le> 370
   \<and> (\<forall>t. step job60 t ((seq_state job60 60)\<lparr>mainpc := Done\<rparr>) = None)
   \<and> length (appended ((seq_state job60 60)\<lparr>mainpc := Done\<rparr>)) = 60
   \<and> appended ((seq_state job60 60)\<lparr>mainpc := Done\<rparr>)
       = map (\<lambda>i. (of_nat i / 30, of_nat i / 30, 1 / 30)) [0..<60]"
proof -
  let ?j = "render_job 30 2 4 (\<lambda>w t. t) :: rat job"
  let ?b = "boot_state ?j 0"
  let ?s = "(seq_state ?j 60)\<lparr>mainpc := Done\<rparr>"
  have n: "numWorkers ?j = 4" "totalFrames ?j = 60"
    by (simp_all add: render_job_def totalFrames_60)
  have "0 < numWorkers ?j" using n by simp
  from round_robin_completes [OF this]
  have h: "start ?j = Inr ?b" "run ?j (round_robin 4 60) ?b = Some ?s"
    using n by simp_all
  have h0: "run ?j [] ?b = Some ?b" "mainpc ?b \<noteq> Done" "mainpc ?s = Done"
    by (simp_all add: boot_state_def)
  have "start ?j = Inr ?b \<and> run ?j [] ?b = Some ?b \<longrightarrow>
      (mainpc ?b \<noteq> Done \<longrightarrow> (\<exists>t r'. step ?j t ?b = Some r'))"
    using output_in_frame_order [of ?j ?b "[]" ?b "\<lambda>w t. t" ?b "[]" ?b] by blast
  then have first: "\<exists>t r'. step ?j t ?b = Some r'" using h(1) h0 by blast
  have "start ?j = Inr ?b \<and> run ?j (round_robin 4 60) ?b = Some ?s \<longrightarrow>
      length (round_robin 4 60) \<le> 370
      \<and> (mainpc ?s = Done \<longrightarrow>
           (\<forall>t. step ?j t ?s = None)
           \<and> length (appended ?s) = 60
           \<and> appended ?s = map (\<lambda>i. (of_nat i / 30, of_nat i / 30, 1 / 30)) [0..<60])"
    using output_in_frame_order [of ?j ?b "round_robin 4 60" ?s "\<lambda>w t. t" ?b
        "round_robin 4 60" ?s]
    by blast
  then have last: "length (round_robin 4 60) \<le> 370" "\<forall>t. step ?j t ?s = None"
    "length (appended ?s) = 60"
    "appended ?s = map (\<lambda>i. (of_nat i / 30, of_nat i / 30, 1 / 30)) [0..<60]"
    using h h0(3) by blast+
  show ?thesis
    unfolding job60_def using h h0 first last by blast
qed

text \<open>
  Runs that finish agree. Let every render surface show the same picture at the same
  timestamp. Then for every job and every worker count \<open>W \<ge> 1\<close>: some schedule lets the
  job finish with one worker and some schedule lets it finish with \<open>W\<close> workers, and any
  finished run with one worker and any finished run with \<open>W\<close> workers have made the same
  appends. (Whether every run finishes is another matter; see the end of this theory.)
\<close>

lemma finished_runs_agree:
  assumes "0 < W" and "\<forall>w t. capture j w t = capture j 0 t"
  shows "(\<exists>sched a0 a. start (j\<lparr>numWorkers := 1\<rparr>) = Inr a0
            \<and> run (j\<lparr>numWorkers := 1\<rparr>) sched a0 = Some a \<and> mainpc a = Done)
       \<and> (\<exists>sched b0 b. start (j\<lparr>numWorkers := W\<rparr>) = Inr b0
            \<and> run (j\<lparr>numWorkers := W\<rparr>) sched b0 = Some b \<and> mainpc b = Done)
       \<and> (\<forall>sched1 a0 a schedW b0 b.
            start (j\<lparr>numWorkers := 1\<rparr>) = Inr a0
            \<and> run (j\<lparr>numWorkers := 1\<rparr>) sched1 a0 = Some a \<and> mainpc a = Done
            \<and> start (j\<lparr>numWorkers := W\<rparr>) = Inr b0
            \<and> run (j\<lparr>numWorkers := W\<rparr>) schedW b0 = Some b \<and> mainpc b = Done
            \<longrightarrow> appended a = appended b)"
proof (intro conjI allI impI)
  let ?j = "j\<lparr>numWorkers := 1\<rparr>"
  have "0 < numWorkers ?j" by simp
  from round_robin_completes [OF this]
  show "\<exists>sched a0 a. start ?j = Inr a0 \<and> run ?j sched a0 = Some a \<and> mainpc a = Done"
    by (intro exI [of _ "round_robin (numWorkers ?j) (totalFrames ?j)"]
          exI [of _ "boot_state ?j 0"]
          exI [of _ "(seq_state ?j (totalFrames ?j))\<lparr>mainpc := Done\<rparr>"]) simp
next
  let ?j = "j\<lparr>numWorkers := W\<rparr>"
  have "0 < numWorkers ?j" using assms(1) by simp
  from round_robin_completes [OF this]
  show "\<exists>sched b0 b. start ?j = Inr b0 \<and> run ?j sched b0 = Some b \<and> mainpc b = Done"
    by (intro exI [of _ "round_robin (numWorkers ?j) (totalFrames ?j)"]
          exI [of _ "boot_state ?j 0"]
          exI [of _ "(seq_state ?j (totalFrames ?j))\<lparr>mainpc := Done\<rparr>"]) simp
next
  fix sched1 a0 a schedW b0 b
  assume a: "start (j\<lparr>numWorkers := 1\<rparr>) = Inr a0
            \<and> run (j\<lparr>numWorkers := 1\<rparr>) sched1 a0 = Some a \<and> mainpc a = Done
            \<and> start (j\<lparr>numWorkers := W\<rparr>) = Inr b0
            \<and> run (j\<lparr>numWorkers := W\<rparr>) schedW b0 = Some b \<and> mainpc b = Done"
  have "appended a = expected (j\<lparr>numWorkers := 1\<rparr>) (totalFrames j)"
    using a reachable_invariant [of "j\<lparr>numWorkers := 1\<rparr>" a0 sched1 a]
      output_finished [of "j\<lparr>numWorkers := 1\<rparr>" a] by simp
  moreover have "appended b = expected (j\<lparr>numWorkers := W\<rparr>) (totalFrames j)"
    using a reachable_invariant [of "j\<lparr>numWorkers := W\<rparr>" b0 schedW b]
      output_finished [of "j\<lparr>numWorkers := W\<rparr>" b] by simp
  moreover have "expected (j\<lparr>numWorkers := 1\<rparr>) n = expected (j\<lparr>numWorkers := W\<rparr>) n" for n
    unfolding expected_def
    by (rule map_cong) (use assms(2) in \<open>simp_all, metis\<close>)
  ultimately show "appended a = appended b" by simp
qed

subsection \<open>Draining in order\<close>

text \<open>A reachable state in which frame 1 is buffered and frame 0 is still being captured.\<close>

definition gap_state :: "rat orchestration" where
  "gap_state =
     \<lparr>frameBuffer = [(1, 1 / 30)], nextEncodeFrame = 0, encodedCount = 0,
      workers = [\<lparr>frames = [0, 2], wpc = Capturing\<rparr>,
                 \<lparr>frames = [], wpc = Yielded AfterInsert\<rparr>],
      mainpc = Ready, appended = []\<rparr>"

definition gap_filled :: "rat orchestration" where
  "gap_filled =
     \<lparr>frameBuffer = [(1, 1 / 30), (0, 0)], nextEncodeFrame = 0, encodedCount = 0,
      workers = [\<lparr>frames = [2], wpc = Capturing\<rparr>,
                 \<lparr>frames = [], wpc = Yielded AfterInsert\<rparr>],
      mainpc = Ready, appended = []\<rparr>"

lemma Map_has_keys: "Map_has m k \<longleftrightarrow> k \<in> fst ` set m"
  by (simp add: Map_has_def map_of_None_iff)

lemma drain_in_order:
  assumes fl: "inv_flight j s" and bf: "inv_buffer j s"
    and pq: "processEncodeQueue j c s = (p, s1)"
  shows "\<exists>n\<le>ENCODE_BATCH_SIZE.
      (\<forall>i. nextEncodeFrame s \<le> i \<and> i < nextEncodeFrame s + n \<longrightarrow> Map_has (frameBuffer s) i)
      \<and> (n < ENCODE_BATCH_SIZE \<longrightarrow> \<not> Map_has (frameBuffer s) (nextEncodeFrame s + n))
      \<and> s1 = drained (nextEncodeFrame s + n) s
      \<and> (n = 0 \<longrightarrow> p = Yielded c \<and> s1 = s)
      \<and> (0 < n \<longrightarrow>
           (\<exists>batch. p = Encoding c (nextEncodeFrame s + n) n batch
              \<and> map snd batch
                  = map (\<lambda>i. of_nat i / fps j) [nextEncodeFrame s..<nextEncodeFrame s + n]
              \<and> length (appended s) = nextEncodeFrame s
              \<and> appended s @ map (sent j) batch = expected j (nextEncodeFrame s + n)))
      \<and> (\<not> Map_has (frameBuffer s) (nextEncodeFrame s) \<longrightarrow> n = 0)"
proof -
  from pq obtain batch l' where
    l': "l' = nextEncodeFrame s + length batch"
    and len: "length batch \<le> ENCODE_BATCH_SIZE"
    and batch: "batch = map (\<lambda>i. (the (map_of (frameBuffer s) i), of_nat i / fps j))
                          [nextEncodeFrame s..<l']"
    and keys: "\<forall>i. nextEncodeFrame s \<le> i \<and> i < l' \<longrightarrow> i \<in> fst ` set (frameBuffer s)"
    and s1: "s1 = drained l' s"
    and p: "p = (if batch = [] then Yielded c else Encoding c l' (length batch) batch)"
    and stop: "length batch < ENCODE_BATCH_SIZE \<longrightarrow> l' \<notin> fst ` set (frameBuffer s)"
    by (rule processEncodeQueue_effect)
  let ?n = "length batch"
  have ts: "map snd batch = map (\<lambda>i. of_nat i / fps j) [nextEncodeFrame s..<l']"
    by (subst batch) (simp add: comp_def)
  have none: "?n = 0 \<longrightarrow> p = Yielded c \<and> s1 = s"
    using p s1 l' by (simp add: drained_nothing)
  have some: "length (appended s) = nextEncodeFrame s
      \<and> appended s @ map (sent j) batch = expected j l'" if pos: "0 < ?n"
  proof -
    have head: "nextEncodeFrame s \<in> fst ` set (frameBuffer s)"
      using keys l' pos by simp
    have idle: "\<forall>t'. is_task s t' \<longrightarrow> \<not> flying (pc_of s t')"
    proof (intro allI impI notI)
      fix t' assume t': "is_task s t'" and "flying (pc_of s t')"
      then obtain c0 l0 n0 r0 where e: "pc_of s t' = Encoding c0 l0 n0 r0"
        by (cases "pc_of s t'") auto
      then have "l0 = nextEncodeFrame s + n0" "0 < n0" "front j s l0"
        using fl t' unfolding inv_flight_def by blast+
      then show False using head by (auto simp: front_def)
    qed
    then have ap: "appended s = expected j (nextEncodeFrame s)"
      using fl unfolding inv_flight_def by blast
    have "appended s @ map (sent j) batch = expected j l'"
      using ap batch batch_expected [OF bf keys] expected_split [of "nextEncodeFrame s" l' j] l'
      by simp
    moreover have "length (appended s) = nextEncodeFrame s"
      using arg_cong [OF ap, of length] by simp
    ultimately show ?thesis by simp
  qed
  show ?thesis
  proof (intro exI [of _ ?n] conjI)
    show "?n \<le> ENCODE_BATCH_SIZE" by (rule len)
    show "\<forall>i. nextEncodeFrame s \<le> i \<and> i < nextEncodeFrame s + ?n \<longrightarrow> Map_has (frameBuffer s) i"
      using keys l' by (simp add: Map_has_keys)
    show "?n < ENCODE_BATCH_SIZE \<longrightarrow> \<not> Map_has (frameBuffer s) (nextEncodeFrame s + ?n)"
      using stop l' by (simp add: Map_has_keys)
    show "s1 = drained (nextEncodeFrame s + ?n) s" using s1 l' by simp
    show "?n = 0 \<longrightarrow> p = Yielded c \<and> s1 = s" by (rule none)
    show "0 < ?n \<longrightarrow>
           (\<exists>batch'. p = Encoding c (nextEncodeFrame s + ?n) ?n batch'
              \<and> map snd batch'
                  = map (\<lambda>i. of_nat i / fps j) [nextEncodeFrame s..<nextEncodeFrame s + ?n]
              \<and> length (appended s) = nextEncodeFrame s
              \<and> appended s @ map (sent j) batch' = expected j (nextEncodeFrame s + ?n))"
    proof
      assume pos: "0 < ?n"
      then have "p = Encoding c (nextEncodeFrame s + ?n) ?n batch" using p l' by auto
      then show "\<exists>batch'. p = Encoding c (nextEncodeFrame s + ?n) ?n batch'
              \<and> map snd batch'
                  = map (\<lambda>i. of_nat i / fps j) [nextEncodeFrame s..<nextEncodeFrame s + ?n]
              \<and> length (appended s) = nextEncodeFrame s
              \<and> appended s @ map (sent j) batch' = expected j (nextEncodeFrame s + ?n)"
        using ts some [OF pos] l' by (intro exI [of _ batch]) simp
    qed
    show "\<not> Map_has (frameBuffer s) (nextEncodeFrame s) \<longrightarrow> ?n = 0"
    proof
      assume g: "\<not> Map_has (frameBuffer s) (nextEncodeFrame s)"
      show "?n = 0"
      proof (rule ccontr)
        assume "?n \<noteq> 0"
        then have "nextEncodeFrame s \<in> fst ` set (frameBuffer s)" using keys l' by simp
        then show False using g by (simp add: Map_has_keys)
      qed
    qed
  qed
qed

text \<open>
  Claim C1. Take any schedule (any interleaving of the workers' insertions) and the state
  \<open>s\<close> it leads to; let \<^verbatim>\<open>processEncodeQueue\<close> be called there, or right after a capturing
  worker has stored its frame (these are the states the code calls it in). Then the call
  takes \<open>n \<le> 5\<close> frames, exactly the indices \<open>nextEncodeFrame, ..., nextEncodeFrame + n - 1\<close>,
  all present, stopping before the cap only at an absent index, and removes them from the
  buffer. When \<open>n > 0\<close> the batch carries their timestamps in increasing order, exactly
  \<open>nextEncodeFrame\<close> frames have been emitted before, and output plus batch is the frame
  sequence \<open>0, ..., nextEncodeFrame + n - 1\<close>: no index is emitted before its predecessor
  or twice. When the index \<open>nextEncodeFrame\<close> is absent the batch is empty and nothing is
  drained, whatever later indices are present.
\<close>

theorem processEncodeQueue_in_order:
  assumes "start j = Inr s0" and "run j sched s0 = Some s"
    and "s2 = s \<or> (w < length (workers s) \<and> wpc (workers s ! w) = Capturing
            \<and> frames (workers s ! w) = f # rest \<and> s2 = stored j w f rest s)"
    and "processEncodeQueue j c s2 = (p, s3)"
  shows "\<exists>n\<le>ENCODE_BATCH_SIZE.
      (\<forall>i. nextEncodeFrame s2 \<le> i \<and> i < nextEncodeFrame s2 + n \<longrightarrow> Map_has (frameBuffer s2) i)
      \<and> (n < ENCODE_BATCH_SIZE \<longrightarrow> \<not> Map_has (frameBuffer s2) (nextEncodeFrame s2 + n))
      \<and> s3 = drained (nextEncodeFrame s2 + n) s2
      \<and> (n = 0 \<longrightarrow> p = Yielded c \<and> s3 = s2)
      \<and> (0 < n \<longrightarrow>
           (\<exists>batch. p = Encoding c (nextEncodeFrame s2 + n) n batch
              \<and> map snd batch
                  = map (\<lambda>i. of_nat i / fps j) [nextEncodeFrame s2..<nextEncodeFrame s2 + n]
              \<and> length (appended s2) = nextEncodeFrame s2
              \<and> appended s2 @ map (sent j) batch = expected j (nextEncodeFrame s2 + n)))
      \<and> (\<not> Map_has (frameBuffer s2) (nextEncodeFrame s2) \<longrightarrow> n = 0)"
proof -
  have inv: "inv_flight j s" "inv_buffer j s"
    using reachable_invariant [OF assms(1,2)] by (simp_all add: invariant_def)
  have inv2: "inv_flight j s2 \<and> inv_buffer j s2"
    using assms(3)
  proof
    assume "s2 = s"
    then show ?thesis using inv by simp
  next
    assume a: "w < length (workers s) \<and> wpc (workers s ! w) = Capturing
            \<and> frames (workers s ! w) = f # rest \<and> s2 = stored j w f rest s"
    then have "w < numWorkers j" using inv(2) by (simp add: inv_buffer_def)
    then show ?thesis
      using a inv inv_flight_stored [of j s w f rest] inv_buffer_stored [of j s w f rest]
      by simp
  qed
  show ?thesis
    by (rule drain_in_order [OF inv2 [THEN conjunct1] inv2 [THEN conjunct2] assms(4)])
qed


lemma gap_reached:
  "start job3 = Inr (boot_state job3 0)"
  "run job3 [Worker 0, Worker 1, Worker 1] (boot_state job3 0) = Some gap_state"
  by code_simp+

lemma gap_drains:
  "processEncodeQueue job3 InWaitLoop gap_state = (Yielded InWaitLoop, gap_state)"
  "stored job3 0 0 [2] gap_state = gap_filled"
  "processEncodeQueue job3 AfterInsert gap_filled
     = (Encoding AfterInsert 2 2 [(0, 0), (1 / 30, 1 / 30)], gap_filled\<lparr>frameBuffer := []\<rparr>)"
  by code_simp+

theorem processEncodeQueue_in_order_witness:
  "start job3 = Inr (boot_state job3 0)
   \<and> run job3 [Worker 0, Worker 1, Worker 1] (boot_state job3 0) = Some gap_state
   \<and> Map_has (frameBuffer gap_state) 1 \<and> \<not> Map_has (frameBuffer gap_state) 0
   \<and> processEncodeQueue job3 InWaitLoop gap_state = (Yielded InWaitLoop, gap_state)
   \<and> (0::nat) < length (workers gap_state) \<and> wpc (workers gap_state ! 0) = Capturing
   \<and> frames (workers gap_state ! 0) = 0 # [2]
   \<and> gap_filled = stored job3 0 0 [2] gap_state
   \<and> processEncodeQueue job3 AfterInsert gap_filled
       = (Encoding AfterInsert 2 2 [(0, 0), (1 / 30, 1 / 30)], gap_filled\<lparr>frameBuffer := []\<rparr>)
   \<and> (\<exists>n\<le>ENCODE_BATCH_SIZE.
         gap_filled\<lparr>frameBuffer := []\<rparr> = drained (nextEncodeFrame gap_filled + n) gap_filled
         \<and> (0 < n \<longrightarrow>
              (\<exists>batch. Encoding AfterInsert 2 2 [(0, 0), (1 / 30, 1 / 30)]
                          = Encoding AfterInsert (nextEncodeFrame gap_filled + n) n batch
                 \<and> appended gap_filled @ map (sent job3) batch
                     = expected job3 (nextEncodeFrame gap_filled + n))))"
proof -
  have g: "Map_has (frameBuffer gap_state) 1" "\<not> Map_has (frameBuffer gap_state) 0"
    "(0::nat) < length (workers gap_state)" "wpc (workers gap_state ! 0) = Capturing"
    "frames (workers gap_state ! 0) = 0 # [2]"
    by (simp_all add: gap_state_def Map_has_def)
  have s2: "gap_filled = gap_state \<or> (0 < length (workers gap_state)
      \<and> wpc (workers gap_state ! 0) = Capturing
      \<and> frames (workers gap_state ! 0) = 0 # [2] \<and> gap_filled = stored job3 0 0 [2] gap_state)"
    using g gap_drains(2) by simp
  from processEncodeQueue_in_order [OF gap_reached s2 gap_drains(3)]
  have "\<exists>n\<le>ENCODE_BATCH_SIZE.
         gap_filled\<lparr>frameBuffer := []\<rparr> = drained (nextEncodeFrame gap_filled + n) gap_filled
         \<and> (0 < n \<longrightarrow>
              (\<exists>batch. Encoding AfterInsert 2 2 [(0, 0), (1 / 30, 1 / 30)]
                          = Encoding AfterInsert (nextEncodeFrame gap_filled + n) n batch
                 \<and> appended gap_filled @ map (sent job3) batch
                     = expected job3 (nextEncodeFrame gap_filled + n)))"
    by (elim exE conjE) (intro exI conjI, assumption+, blast)
  then show ?thesis
    using g gap_reached gap_drains by simp
qed


subsection \<open>Inserting an index that is present\<close>





subsection \<open>Flow control\<close>

text \<open>
  A long job with two workers, and the states in which worker 0 is still capturing frame 0
  while worker 1 has stored its first \<open>k\<close> frames \<open>1, 3, ..., 2k - 1\<close>.
\<close>

definition job700 :: "rat job" where
  "job700 = \<lparr>fps = 30, totalFrames = 700, numWorkers = 2, capture = (\<lambda>w t. t)\<rparr>"

definition flood_state :: "nat \<Rightarrow> rat pc \<Rightarrow> rat orchestration" where
  "flood_state k p =
     \<lparr>frameBuffer = map (\<lambda>i. (2 * i + 1, of_nat (2 * i + 1) / 30)) [0..<k],
      nextEncodeFrame = 0, encodedCount = 0,
      workers = [\<lparr>frames = rowfs job700 0 0, wpc = Capturing\<rparr>,
                 \<lparr>frames = map (\<lambda>i. 2 * i + 1) [k..<350], wpc = p\<rparr>],
      mainpc = Ready, appended = []\<rparr>"

definition flood_schedule :: "task list" where
  "flood_schedule =
     [Worker 0, Worker 1] @ concat (replicate 300 [Worker 1, Worker 1]) @ [Worker 1]"

lemma odd_rows: "filter (\<lambda>k. k mod 2 = Suc 0) [0..<2 * n] = map (\<lambda>i. 2 * i + 1) [0..<n]"
  by (induction n) simp_all

lemma processEncodeQueue_gap:
  assumes "map_of (frameBuffer s) (nextEncodeFrame s) = None"
  shows "processEncodeQueue j c s = (Yielded c, s)"
proof -
  have c: "collect (fps j) (Suc n) (frameBuffer s) (nextEncodeFrame s)
        = ([], frameBuffer s, nextEncodeFrame s)" for n
    using assms by (simp add: Map_get_def)
  have e: "ENCODE_BATCH_SIZE = Suc 4" by (simp add: ENCODE_BATCH_SIZE_def)
  have "collect (fps j) ENCODE_BATCH_SIZE (frameBuffer s) (nextEncodeFrame s)
        = ([], frameBuffer s, nextEncodeFrame s)"
    unfolding e by (rule c)
  then show ?thesis by (simp add: processEncodeQueue_def)
qed

lemma run_then:
  "run j a s = Some s' \<Longrightarrow> run j b s' = Some s'' \<Longrightarrow> run j (a @ b) s = Some s''"
  by (simp add: run_append)

lemma flood_boot:
  "start job700 = Inr (boot_state job700 0)"
  "run job700 [Worker 0, Worker 1] (boot_state job700 0) = Some (flood_state 0 Capturing)"
proof -
  have W: "numWorkers job700 = 2" and N: "totalFrames job700 = 700"
    by (simp_all add: job700_def)
  show "start job700 = Inr (boot_state job700 0)"
    using round_robin_completes [of job700] W by simp
  have r0: "rowfs job700 0 0 \<noteq> []"
    using rowfs_Suc [of 0 job700 0] N by simp
  have r1: "rowfs job700 0 1 = map (\<lambda>i. 2 * i + 1) [0..<350]"
    using odd_rows [of 350] by (simp add: rowfs_def W N)
  have "[0..<2] = [0, Suc 0]" by (simp add: upt_conv_Cons)
  then have "seq_state job700 0 = flood_state 0 Capturing"
    using r0 r1 by (simp add: seq_state_def flood_state_def W expected_def at_rest_def)
  moreover have "map Worker [0..<2] = [Worker 0, Worker 1]"
    by (simp add: upt_conv_Cons)
  ultimately show "run job700 [Worker 0, Worker 1] (boot_state job700 0)
                   = Some (flood_state 0 Capturing)"
    using boot_run [of 2 job700] boot_seq [of job700] W by simp
qed

lemma flood_capture:
  assumes "k < 350"
  shows "worker_step job700 1 (flood_state k Capturing)
         = Some (flood_state (Suc k) (Yielded AfterInsert))"
proof -
  let ?rest = "map (\<lambda>i. 2 * i + 1) [Suc k..<350]"
  let ?s1 = "stored job700 1 (2 * k + 1) ?rest (flood_state k Capturing)"
  have wl: "1 < length (workers (flood_state k Capturing))"
    by (simp add: flood_state_def)
  have wk: "workers (flood_state k Capturing) ! 1
            = \<lparr>frames = (2 * k + 1) # ?rest, wpc = Capturing\<rparr>"
    using assms by (simp add: flood_state_def upt_conv_Cons)
  have fresh: "2 * k + 1 \<notin> fst ` set (frameBuffer (flood_state k Capturing))"
    by (auto simp: flood_state_def)
  have buf: "frameBuffer ?s1 = map (\<lambda>i. (2 * i + 1, of_nat (2 * i + 1) / 30)) [0..<Suc k]"
    using Map_set_fresh [OF fresh] by (simp add: flood_state_def job700_def)
  have "0 \<notin> fst ` set (frameBuffer ?s1)" unfolding buf by auto
  then have gap: "map_of (frameBuffer ?s1) (nextEncodeFrame ?s1) = None"
    by (simp add: map_of_None_iff flood_state_def)
  have "set_pc 1 (Yielded AfterInsert) ?s1 = flood_state (Suc k) (Yielded AfterInsert)"
    using buf by (simp add: set_pc_def stored_def flood_state_def)
  then show ?thesis
    using step_capture [OF wl wk, of job700] processEncodeQueue_gap [OF gap] by simp
qed

lemma flood_resume:
  assumes "k \<le> 300"
  shows "worker_step job700 1 (flood_state k (Yielded AfterInsert))
         = Some (flood_state k Capturing)"
proof -
  have "[k..<350] = k # [Suc k..<350]" using assms by (simp add: upt_conv_Cons)
  then have "loop_top (flood_state k (Yielded AfterInsert)) (map (\<lambda>i. 2 * i + 1) [k..<350])
             = Capturing"
    using assms by (simp add: loop_top_def flood_state_def Map_size_def MAX_BUFFERED_FRAMES_def)
  then show ?thesis
    by (simp add: worker_step_def resume_worker_def flood_state_def set_pc_def)
qed

lemma flood_rounds:
  "k \<le> 300 \<Longrightarrow>
     run job700 (concat (replicate k [Worker 1, Worker 1])) (flood_state 0 Capturing)
     = Some (flood_state k Capturing)"
proof (induction k)
  case 0
  then show ?case by simp
next
  case (Suc k)
  have "replicate (Suc k) [Worker 1, Worker 1] = replicate k [Worker 1, Worker 1] @ [[Worker 1, Worker 1]]"
    by (simp add: replicate_append_same)
  then have "concat (replicate (Suc k) [Worker 1, Worker 1])
             = concat (replicate k [Worker 1, Worker 1]) @ [Worker 1, Worker 1]"
    by simp
  moreover have "run job700 [Worker 1, Worker 1] (flood_state k Capturing)
                 = Some (flood_state (Suc k) Capturing)"
    using Suc.prems flood_capture [of k] flood_resume [of "Suc k"] by (simp add: step_def)
  ultimately show ?case using Suc by (simp add: run_append)
qed

lemma flood_reached:
  "run job700 flood_schedule (boot_state job700 0) = Some (flood_state 301 (Yielded AfterInsert))"
proof -
  have r1: "run job700 (concat (replicate 300 [Worker 1, Worker 1])) (flood_state 0 Capturing)
        = Some (flood_state 300 Capturing)"
    by (rule flood_rounds) simp
  have r2: "run job700 [Worker 1] (flood_state 300 Capturing)
                 = Some (flood_state 301 (Yielded AfterInsert))"
    using flood_capture [of 300] by (simp add: step_def)
  show ?thesis
    unfolding flood_schedule_def
    by (rule run_then [OF flood_boot(2) run_then [OF r1 r2]])
qed

text \<open>
  Claim C2, as stated, fails. Worker 0 is slow with frame 0; worker 1 stores frames
  \<open>1, 3, ..., 599\<close>. At its next check the occupancy is 300, above capacity - batchCap = 295
  but not above the capacity, so it does not wait, captures frame 601 and stores it: the
  occupancy is 301, above the configured capacity of 300, while worker 0 is still capturing.
\<close>

theorem occupancy_counterexample:
  "start job700 = Inr (boot_state job700 0)
   \<and> run job700 flood_schedule (boot_state job700 0)
       = Some (flood_state 301 (Yielded AfterInsert))
   \<and> Map_size (frameBuffer (flood_state 301 (Yielded AfterInsert))) = 301
   \<and> MAX_BUFFERED_FRAMES = 300 \<and> ENCODE_BATCH_SIZE = 5
   \<and> wpc (workers (flood_state 301 (Yielded AfterInsert)) ! 0) = Capturing
   \<and> Map_size (frameBuffer (flood_state 300 (Yielded AfterInsert))) = 300
   \<and> worker_step job700 1 (flood_state 300 (Yielded AfterInsert))
       = Some (flood_state 300 Capturing)"
proof -
  have "worker_step job700 1 (flood_state 300 (Yielded AfterInsert))
                 = Some (flood_state 300 Capturing)"
    by (rule flood_resume) simp
  then show ?thesis
    using flood_boot(1) flood_reached
    by (simp add: flood_state_def Map_size_def MAX_BUFFERED_FRAMES_def ENCODE_BATCH_SIZE_def)
qed

text \<open>
  Claim C2, amended. A worker waits before capturing its next frame only when, at the top of
  an iteration, it finds the occupancy strictly above the capacity (300). It then sleeps
  (50 ms) and attempts a drain, and repeats this while the occupancy is above
  capacity - batchCap (295); only then does it capture and insert. While workers are
  inserting, the occupancy can exceed the capacity, but in no state a job can reach does it
  exceed the capacity plus the number of workers.
\<close>

theorem occupancy_bound:
  "(start j = Inr s0 \<and> run j sched s0 = Some s \<longrightarrow>
      Map_size (frameBuffer s) \<le> MAX_BUFFERED_FRAMES + numWorkers j)
   \<and> loop_top s1 (f # fs)
       = (if Map_size (frameBuffer s1) > MAX_BUFFERED_FRAMES then Sleeping else Capturing)
   \<and> (w < length (workers s1) \<and> wpc (workers s1 ! w) = Sleeping \<longrightarrow>
        worker_step j w s1
          = (case processEncodeQueue j InWaitLoop s1 of (p, s2) \<Rightarrow> Some (set_pc w p s2)))
   \<and> resume_worker InWaitLoop s1 fs
       = Some (if Map_size (frameBuffer s1) > MAX_BUFFERED_FRAMES - ENCODE_BATCH_SIZE
               then Sleeping else Capturing)"
proof (intro conjI)
  show "start j = Inr s0 \<and> run j sched s0 = Some s \<longrightarrow>
      Map_size (frameBuffer s) \<le> MAX_BUFFERED_FRAMES + numWorkers j"
  proof
    assume a: "start j = Inr s0 \<and> run j sched s0 = Some s"
    then have "inv_occupancy s" using start_occupancy run_occupancy by blast
    moreover have "length (workers s) = numWorkers j"
      using a reachable_invariant [of j s0 sched s] by (simp add: invariant_def inv_buffer_def)
    ultimately show "Map_size (frameBuffer s) \<le> MAX_BUFFERED_FRAMES + numWorkers j"
      by (simp add: inv_occupancy_def)
  qed
next
  show "loop_top s1 (f # fs)
       = (if Map_size (frameBuffer s1) > MAX_BUFFERED_FRAMES then Sleeping else Capturing)"
    by (auto simp: loop_top_def wait_check_def)
next
  show "w < length (workers s1) \<and> wpc (workers s1 ! w) = Sleeping \<longrightarrow>
        worker_step j w s1
          = (case processEncodeQueue j InWaitLoop s1 of (p, s2) \<Rightarrow> Some (set_pc w p s2))"
    by (simp add: worker_step_def)
next
  show "resume_worker InWaitLoop s1 fs
       = Some (if Map_size (frameBuffer s1) > MAX_BUFFERED_FRAMES - ENCODE_BATCH_SIZE
               then Sleeping else Capturing)"
    by (simp add: resume_worker_def wait_check_def)
qed

theorem occupancy_bound_witness:
  "start job700 = Inr (boot_state job700 0)
   \<and> run job700 flood_schedule (boot_state job700 0)
       = Some (flood_state 301 (Yielded AfterInsert))
   \<and> Map_size (frameBuffer (flood_state 301 (Yielded AfterInsert)))
       \<le> MAX_BUFFERED_FRAMES + numWorkers job700
   \<and> loop_top (flood_state 301 (Yielded AfterInsert)) [603] = Sleeping
   \<and> (1::nat) < length (workers (flood_state 301 Sleeping))
   \<and> wpc (workers (flood_state 301 Sleeping) ! 1) = Sleeping
   \<and> worker_step job700 1 (flood_state 301 Sleeping)
       = Some (flood_state 301 (Yielded InWaitLoop))
   \<and> resume_worker InWaitLoop (flood_state 301 (Yielded InWaitLoop)) [603] = Some Sleeping"
proof -
  have r: "start job700 = Inr (boot_state job700 0)"
    "run job700 flood_schedule (boot_state job700 0)
       = Some (flood_state 301 (Yielded AfterInsert))"
    using flood_boot(1) flood_reached by simp_all
  have sz: "Map_size (frameBuffer (flood_state 301 p)) = 301" for p
    by (simp add: flood_state_def Map_size_def)
  have w: "(1::nat) < length (workers (flood_state 301 Sleeping))"
    "wpc (workers (flood_state 301 Sleeping) ! 1) = Sleeping"
    by (simp_all add: flood_state_def)
  have "0 \<notin> fst ` set (frameBuffer (flood_state 301 Sleeping))"
    by (auto simp: flood_state_def)
  then have "map_of (frameBuffer (flood_state 301 Sleeping))
               (nextEncodeFrame (flood_state 301 Sleeping)) = None"
    by (simp add: map_of_None_iff flood_state_def)
  then have pq: "processEncodeQueue job700 InWaitLoop (flood_state 301 Sleeping)
                 = (Yielded InWaitLoop, flood_state 301 Sleeping)"
    by (rule processEncodeQueue_gap)
  have sp: "set_pc 1 (Yielded InWaitLoop) (flood_state 301 Sleeping)
            = flood_state 301 (Yielded InWaitLoop)"
    by (simp add: set_pc_def flood_state_def)
  note b = occupancy_bound [where j = job700 and ?s0.0 = "boot_state job700 0"
      and sched = flood_schedule and s = "flood_state 301 (Yielded AfterInsert)"
      and ?s1.0 = "flood_state 301 Sleeping" and w = 1]
  have "worker_step job700 1 (flood_state 301 Sleeping)
        = Some (flood_state 301 (Yielded InWaitLoop))"
    using b w pq sp by simp
  moreover have "Map_size (frameBuffer (flood_state 301 (Yielded AfterInsert)))
       \<le> MAX_BUFFERED_FRAMES + numWorkers job700"
    using b r by blast
  moreover have "loop_top (flood_state 301 (Yielded AfterInsert)) [603] = Sleeping"
    by (simp add: loop_top_def wait_check_def sz MAX_BUFFERED_FRAMES_def ENCODE_BATCH_SIZE_def)
  moreover have "resume_worker InWaitLoop (flood_state 301 (Yielded InWaitLoop)) [603]
                 = Some Sleeping"
    by (simp add: resume_worker_def wait_check_def sz MAX_BUFFERED_FRAMES_def
          ENCODE_BATCH_SIZE_def)
  ultimately show ?thesis using r w by simp
qed

subsection \<open>A job that never finishes\<close>








text \<open>
  The two-worker job again. \<open>pile a b\<close> is the buffer that holds the frames
  \<open>2a + 1, ..., 2b - 1\<close> of worker 1.
\<close>

definition pile :: "nat \<Rightarrow> nat \<Rightarrow> rat frame_map" where
  "pile a b = map (\<lambda>i. (2 * i + 1, of_nat (2 * i + 1) / 30)) [a..<b]"








lemma length_pile [simp]: "length (pile a b) = b - a"
  by (simp add: pile_def)























end
